theory Spec2Isabelle
  imports Complex_Main
begin

section \<open>Numbers\<close>

text \<open>
  The sketch engine works on JavaScript numbers.  Coordinates that come from the canvas are
  finite, and arithmetic on them is modelled by exact arithmetic on \<^typ>\<open>real\<close>: rounding,
  overflow and the sign of zero are not modelled.  The bounding box of the dimension strokes
  and the scale factor derived from it can leave the finite numbers without any rounding
  being involved (\<open>Infinity\<close> as the start value of a minimum, a quotient by zero), so that
  part of the pipeline computes on \<open>jsnum\<close>, which has the three special values as well.
  A zero divisor is read as \<open>+0\<close>.
\<close>

datatype jsnum = Fin real | PosInf | NegInf | NaN

fun jsmin :: "jsnum \<Rightarrow> jsnum \<Rightarrow> jsnum" where
  "jsmin NaN b = NaN"
| "jsmin a NaN = NaN"
| "jsmin NegInf b = NegInf"
| "jsmin a NegInf = NegInf"
| "jsmin PosInf b = b"
| "jsmin a PosInf = a"
| "jsmin (Fin a) (Fin b) = Fin (min a b)"

fun jsmax :: "jsnum \<Rightarrow> jsnum \<Rightarrow> jsnum" where
  "jsmax NaN b = NaN"
| "jsmax a NaN = NaN"
| "jsmax PosInf b = PosInf"
| "jsmax a PosInf = PosInf"
| "jsmax NegInf b = b"
| "jsmax a NegInf = a"
| "jsmax (Fin a) (Fin b) = Fin (max a b)"

fun jsadd :: "jsnum \<Rightarrow> jsnum \<Rightarrow> jsnum" where
  "jsadd NaN b = NaN"
| "jsadd a NaN = NaN"
| "jsadd PosInf NegInf = NaN"
| "jsadd NegInf PosInf = NaN"
| "jsadd PosInf b = PosInf"
| "jsadd a PosInf = PosInf"
| "jsadd NegInf b = NegInf"
| "jsadd a NegInf = NegInf"
| "jsadd (Fin a) (Fin b) = Fin (a + b)"

fun jssub :: "jsnum \<Rightarrow> jsnum \<Rightarrow> jsnum" where
  "jssub NaN b = NaN"
| "jssub a NaN = NaN"
| "jssub PosInf PosInf = NaN"
| "jssub NegInf NegInf = NaN"
| "jssub PosInf b = PosInf"
| "jssub NegInf b = NegInf"
| "jssub a PosInf = NegInf"
| "jssub a NegInf = PosInf"
| "jssub (Fin a) (Fin b) = Fin (a - b)"

fun jsmul :: "jsnum \<Rightarrow> jsnum \<Rightarrow> jsnum" where
  "jsmul NaN b = NaN"
| "jsmul a NaN = NaN"
| "jsmul (Fin a) (Fin b) = Fin (a * b)"
| "jsmul (Fin a) PosInf = (if a = 0 then NaN else if 0 < a then PosInf else NegInf)"
| "jsmul (Fin a) NegInf = (if a = 0 then NaN else if 0 < a then NegInf else PosInf)"
| "jsmul PosInf (Fin b) = (if b = 0 then NaN else if 0 < b then PosInf else NegInf)"
| "jsmul NegInf (Fin b) = (if b = 0 then NaN else if 0 < b then NegInf else PosInf)"
| "jsmul PosInf PosInf = PosInf"
| "jsmul PosInf NegInf = NegInf"
| "jsmul NegInf PosInf = NegInf"
| "jsmul NegInf NegInf = PosInf"

fun jsdiv :: "jsnum \<Rightarrow> jsnum \<Rightarrow> jsnum" where
  "jsdiv NaN b = NaN"
| "jsdiv a NaN = NaN"
| "jsdiv (Fin a) (Fin b) =
     (if b \<noteq> 0 then Fin (a / b)
      else if a = 0 then NaN else if 0 < a then PosInf else NegInf)"
| "jsdiv (Fin a) PosInf = Fin 0"
| "jsdiv (Fin a) NegInf = Fin 0"
| "jsdiv PosInf (Fin b) = (if 0 \<le> b then PosInf else NegInf)"
| "jsdiv NegInf (Fin b) = (if 0 \<le> b then NegInf else PosInf)"
| "jsdiv PosInf b = NaN"
| "jsdiv NegInf b = NaN"

text \<open>The remainder operator \<open>%\<close>: the quotient is truncated towards zero, so the result
  has the sign of the dividend.\<close>

definition jsmod :: "real \<Rightarrow> real \<Rightarrow> real" where
  "jsmod a b = a - b * of_int (if 0 \<le> a / b then \<lfloor>a / b\<rfloor> else \<lceil>a / b\<rceil>)"

text \<open>\<open>Math.atan2(y, x)\<close>, the angle of the vector \<open>(x, y)\<close> in \<open>(-\<pi>, \<pi>]\<close>.\<close>

definition atan2 :: "real \<Rightarrow> real \<Rightarrow> real" where
  "atan2 y x =
     (if 0 < x then arctan (y / x)
      else if x < 0 then (if 0 \<le> y then arctan (y / x) + pi else arctan (y / x) - pi)
      else if 0 < y then pi / 2
      else if y < 0 then - (pi / 2)
      else 0)"

text \<open>The decimal string of an array index, as \<open>Array.prototype.join\<close> and a template
  literal print it.\<close>

fun showNat :: "nat \<Rightarrow> string" where
  "showNat n =
     (if n < 10 then [char_of (48 + n)]
      else showNat (n div 10) @ [char_of (48 + n mod 10)])"

declare showNat.simps [simp del]

section \<open>Data model\<close>

record point =
  px :: real
  py :: real

text \<open>A stroke is a paper.js item; \<open>path.segments\<close> is \<open>None\<close> when the item has no
  \<open>segments\<close> property, otherwise the list of its segment points.\<close>

type_synonym path = "point list option"

record wallGraph =
  nodes :: "point list"
  edges :: "(nat \<times> nat) list"

record original =
  orig_start :: point
  orig_end :: point

record door =
  door_start :: point
  door_end :: point
  door_original :: original

section \<open>Stroke simplification\<close>

definition areColinear :: "point \<Rightarrow> point \<Rightarrow> point \<Rightarrow> real \<Rightarrow> bool" where
  "areColinear p1 p2 p3 angleTolerance =
     (let v1x = px p1 - px p2; v1y = py p1 - py p2;
          v2x = px p3 - px p2; v2y = py p3 - py p2;
          mag1 = sqrt (v1x * v1x + v1y * v1y);
          mag2 = sqrt (v2x * v2x + v2y * v2y)
      in if mag1 = 0 \<or> mag2 = 0 then True
         else
           (let dotProduct = v1x * v2x + v1y * v2y;
                cosAngle = dotProduct / (mag1 * mag2);
                angleInDegrees = arccos (max (- 1) (min 1 cosAngle)) * (180 / pi)
            in \<bar>180 - angleInDegrees\<bar> \<le> angleTolerance))"

text \<open>The \<open>for\<close> loop of \<open>removeColinearPoints\<close>.  The second argument holds the raw points
  from index \<open>i\<close> on; the loop stops at the last raw point, which is not an interior
  point.\<close>

fun removeColinearPoints_loop :: "point list \<Rightarrow> point list \<Rightarrow> real \<Rightarrow> point list" where
  "removeColinearPoints_loop cleaned (current # next # rest) angleTolerance =
     removeColinearPoints_loop
       (if \<not> areColinear (last cleaned) current next angleTolerance
        then cleaned @ [current] else cleaned)
       (next # rest) angleTolerance"
| "removeColinearPoints_loop cleaned rest angleTolerance = cleaned"

definition removeColinearPoints :: "point list \<Rightarrow> real \<Rightarrow> point list" where
  "removeColinearPoints points angleTolerance =
     (if length points \<le> 2 then points
      else removeColinearPoints_loop [hd points] (tl points) angleTolerance @ [last points])"

section \<open>Wall graph\<close>

definition mergeDistance :: real where
  "mergeDistance = 40"

definition snapTolerance :: real where
  "snapTolerance = 10"

definition distance :: "point \<Rightarrow> point \<Rightarrow> real" where
  "distance p1 p2 = sqrt ((px p1 - px p2)\<^sup>2 + (py p1 - py p2)\<^sup>2)"

text \<open>\<open>Array.prototype.findIndex\<close>; \<open>None\<close> stands for the result \<open>-1\<close>.\<close>

fun findIndex :: "('a \<Rightarrow> bool) \<Rightarrow> 'a list \<Rightarrow> nat option" where
  "findIndex P [] = None"
| "findIndex P (x # xs) = (if P x then Some 0 else map_option Suc (findIndex P xs))"

text \<open>Find or add a node: the index of the first node closer than \<open>mergeDistance\<close> to
  \<open>p\<close>, or the index of \<open>p\<close> pushed as a new node.\<close>

definition findOrAddNode :: "point list \<Rightarrow> point \<Rightarrow> nat \<times> point list" where
  "findOrAddNode ns p =
     (case findIndex (\<lambda>n. distance n p < mergeDistance) ns of
        Some idx \<Rightarrow> (idx, ns)
      | None \<Rightarrow> (length ns, ns @ [p]))"

text \<open>The loop over the consecutive pairs of the cleaned points of one path.\<close>

fun addPathEdges :: "wallGraph \<Rightarrow> point list \<Rightarrow> wallGraph" where
  "addPathEdges graph (p1 # p2 # rest) =
     (let r1 = findOrAddNode (nodes graph) p1;
          idx1 = fst r1;
          r2 = findOrAddNode (snd r1) p2;
          idx2 = fst r2
      in addPathEdges
           \<lparr>nodes = snd r2,
            edges = (if idx1 \<noteq> idx2 then edges graph @ [(idx1, idx2)] else edges graph)\<rparr>
           (p2 # rest))"
| "addPathEdges graph rest = graph"

definition processPath :: "wallGraph \<Rightarrow> path \<Rightarrow> wallGraph" where
  "processPath graph path =
     (case path of
        None \<Rightarrow> graph
      | Some points \<Rightarrow> addPathEdges graph (removeColinearPoints points 10))"

definition buildGraph :: "path list \<Rightarrow> wallGraph" where
  "buildGraph wallPaths = foldl processPath \<lparr>nodes = [], edges = []\<rparr> wallPaths"

text \<open>The values that \<open>idx1\<close> and \<open>idx2\<close> take in the loop above, each with the point it was
  resolved for, in the order of the assignments.  The graph does not keep them; they are
  recorded here by the same recursion.\<close>

fun pathAssignments :: "point list \<Rightarrow> point list \<Rightarrow> (point \<times> nat) list \<times> point list" where
  "pathAssignments ns (p1 # p2 # rest) =
     (let r1 = findOrAddNode ns p1;
          r2 = findOrAddNode (snd r1) p2;
          r = pathAssignments (snd r2) (p2 # rest)
      in ((p1, fst r1) # (p2, fst r2) # fst r, snd r))"
| "pathAssignments ns rest = ([], ns)"

fun assignments :: "point list \<Rightarrow> path list \<Rightarrow> (point \<times> nat) list" where
  "assignments ns [] = []"
| "assignments ns (None # paths) = assignments ns paths"
| "assignments ns (Some points # paths) =
     (let r = pathAssignments ns (removeColinearPoints points 10)
      in fst r @ assignments (snd r) paths)"

definition normalizedAngle :: "point \<Rightarrow> point \<Rightarrow> real" where
  "normalizedAngle n1 n2 =
     (let dx = px n2 - px n1;
          dy = py n2 - py n1;
          angleRad = atan2 dy dx;
          angleDeg = angleRad * (180 / pi)
      in jsmod (jsmod angleDeg 360 + 360) 360)"

definition isNearHorizontal :: "real \<Rightarrow> bool" where
  "isNearHorizontal a \<longleftrightarrow>
     a \<le> snapTolerance \<or> a \<ge> 360 - snapTolerance \<or> \<bar>a - 180\<bar> \<le> snapTolerance"

definition isNearVertical :: "real \<Rightarrow> bool" where
  "isNearVertical a \<longleftrightarrow> \<bar>a - 90\<bar> \<le> snapTolerance \<or> \<bar>a - 270\<bar> \<le> snapTolerance"

text \<open>One iteration of the snapping pass.  The nodes are shared objects, so the update is
  seen by every edge that uses the node.  Reading a node outside the array gives
  \<open>undefined\<close>, and the property access on it throws: \<open>None\<close>.\<close>

definition rectifyEdge :: "point list \<Rightarrow> nat \<times> nat \<Rightarrow> point list option" where
  "rectifyEdge ns e =
     (let idx1 = fst e; idx2 = snd e
      in if idx1 < length ns \<and> idx2 < length ns then
           (let n1 = ns ! idx1; n2 = ns ! idx2;
                a = normalizedAngle n1 n2
            in if isNearHorizontal a then
                 (let avgY = (py n1 + py n2) / 2;
                      ns1 = ns[idx1 := n1\<lparr>py := avgY\<rparr>]
                  in Some (ns1[idx2 := (ns1 ! idx2)\<lparr>py := avgY\<rparr>]))
               else if isNearVertical a then
                 (let avgX = (px n1 + px n2) / 2;
                      ns1 = ns[idx1 := n1\<lparr>px := avgX\<rparr>]
                  in Some (ns1[idx2 := (ns1 ! idx2)\<lparr>px := avgX\<rparr>]))
               else Some ns)
         else None)"

fun rectifyEdges :: "point list \<Rightarrow> (nat \<times> nat) list \<Rightarrow> point list option" where
  "rectifyEdges ns [] = Some ns"
| "rectifyEdges ns (e # es) =
     (case rectifyEdge ns e of None \<Rightarrow> None | Some ns' \<Rightarrow> rectifyEdges ns' es)"

definition edgeKey :: "nat \<times> nat \<Rightarrow> string" where
  "edgeKey e = showNat (min (fst e) (snd e)) @ ''-'' @ showNat (max (fst e) (snd e))"

text \<open>\<open>Map.prototype.set\<close> on a map kept in insertion order: an existing key keeps its
  place and takes the new value, a new key goes to the end.\<close>

fun mapSet :: "('k \<times> 'v) list \<Rightarrow> 'k \<Rightarrow> 'v \<Rightarrow> ('k \<times> 'v) list" where
  "mapSet [] k v = [(k, v)]"
| "mapSet ((k', v') # m) k v = (if k' = k then (k, v) # m else (k', v') # mapSet m k v)"

definition uniqueEdges :: "(nat \<times> nat) list \<Rightarrow> (string \<times> (nat \<times> nat)) list" where
  "uniqueEdges es = foldl (\<lambda>m e. mapSet m (edgeKey e) e) [] es"

definition createWallGraph :: "path list \<Rightarrow> wallGraph option" where
  "createWallGraph wallPaths =
     (let graph = buildGraph wallPaths
      in case rectifyEdges (nodes graph) (edges graph) of
           None \<Rightarrow> None
         | Some ns \<Rightarrow> Some \<lparr>nodes = ns, edges = map snd (uniqueEdges (edges graph))\<rparr>)"

section \<open>Doors\<close>

text \<open>\<open>distanceToSegment\<close> returns a bare number on a segment of length zero and an object
  with the fields \<open>distance\<close> and \<open>projected\<close> otherwise.\<close>

datatype segResult = Number real | Object real point

definition distanceToSegment :: "point \<Rightarrow> point \<Rightarrow> point \<Rightarrow> segResult" where
  "distanceToSegment p lineStart lineEnd =
     (let dx = px lineEnd - px lineStart;
          dy = py lineEnd - py lineStart;
          lengthSquared = dx * dx + dy * dy
      in if lengthSquared = 0 then
           (let distX = px p - px lineStart;
                distY = py p - py lineStart
            in Number (sqrt (distX * distX + distY * distY)))
         else
           (let t = ((px p - px lineStart) * dx + (py p - py lineStart) * dy) / lengthSquared;
                t' = max 0 (min 1 t);
                projectedX = px lineStart + t' * dx;
                projectedY = py lineStart + t' * dy;
                distX = px p - projectedX;
                distY = py p - projectedY
            in Object (sqrt (distX * distX + distY * distY))
                 \<lparr>px = projectedX, py = projectedY\<rparr>))"

text \<open>The state of \<open>snapToNearestEdge\<close>: \<open>minDistance\<close> (\<open>None\<close> is its start value
  \<open>Infinity\<close>) and \<open>snappedPoint\<close>.  On a bare number \<open>result.distance\<close> is \<open>undefined\<close>,
  and \<open>undefined < minDistance\<close> is false.\<close>

definition snapStep :: "point list \<Rightarrow> point \<Rightarrow> real option \<times> point \<Rightarrow> nat \<times> nat
    \<Rightarrow> (real option \<times> point) option" where
  "snapStep ns p st e =
     (let idx1 = fst e; idx2 = snd e
      in if idx1 < length ns \<and> idx2 < length ns then
           (case distanceToSegment p (ns ! idx1) (ns ! idx2) of
              Number d \<Rightarrow> Some st
            | Object d projected \<Rightarrow>
                (if (case fst st of None \<Rightarrow> True | Some minDistance \<Rightarrow> d < minDistance)
                 then Some (Some d, projected) else Some st))
         else None)"

fun snapLoop :: "point list \<Rightarrow> point \<Rightarrow> real option \<times> point \<Rightarrow> (nat \<times> nat) list
    \<Rightarrow> (real option \<times> point) option" where
  "snapLoop ns p st [] = Some st"
| "snapLoop ns p st (e # es) =
     (case snapStep ns p st e of None \<Rightarrow> None | Some st' \<Rightarrow> snapLoop ns p st' es)"

definition snapToNearestEdge :: "wallGraph \<Rightarrow> point \<Rightarrow> point option" where
  "snapToNearestEdge graph p = map_option snd (snapLoop (nodes graph) p (None, p) (edges graph))"

fun findDoors_loop :: "wallGraph \<Rightarrow> path list \<Rightarrow> door list \<Rightarrow> door list option" where
  "findDoors_loop graph [] doors = Some doors"
| "findDoors_loop graph (None # paths) doors = findDoors_loop graph paths doors"
| "findDoors_loop graph (Some segments # paths) doors =
     (if length segments < 2 then findDoors_loop graph paths doors
      else
        (let startPoint = hd segments; endPoint = last segments
         in case snapToNearestEdge graph startPoint of
              None \<Rightarrow> None
            | Some snappedStart \<Rightarrow>
                (case snapToNearestEdge graph endPoint of
                   None \<Rightarrow> None
                 | Some snappedEnd \<Rightarrow>
                     findDoors_loop graph paths
                       (doors @ [\<lparr>door_start = snappedStart, door_end = snappedEnd,
                          door_original = \<lparr>orig_start = startPoint, orig_end = endPoint\<rparr>\<rparr>]))))"

definition findDoors :: "path list \<Rightarrow> wallGraph \<Rightarrow> door list option" where
  "findDoors doorPaths graph = findDoors_loop graph doorPaths []"

section \<open>Scaling and submission\<close>

record jpoint =
  jx :: jsnum
  jy :: jsnum

record scaledDoor =
  sdoor_start :: jpoint
  sdoor_end :: jpoint
  sdoor_original :: original

record scaledWallGraph =
  snodes :: "jpoint list"
  sedges :: "(nat \<times> nat) list"

record scaled =
  scaled_wallGraph :: scaledWallGraph
  scaled_doors :: "scaledDoor list"
  scaleFactor :: jsnum

definition scaleToRealWorld :: "wallGraph \<Rightarrow> door list \<Rightarrow> real \<Rightarrow> jsnum \<Rightarrow> scaled" where
  "scaleToRealWorld wallGraph doors dimensionValue boundingBoxLength =
     (let factor = jsdiv (Fin 12) boundingBoxLength
      in \<lparr>scaled_wallGraph =
            \<lparr>snodes = map (\<lambda>node. \<lparr>jx = jsmul (Fin (px node)) factor,
                                    jy = jsmul (Fin (py node)) factor\<rparr>) (nodes wallGraph),
             sedges = edges wallGraph\<rparr>,
          scaled_doors =
            map (\<lambda>door.
                   \<lparr>sdoor_start = \<lparr>jx = jsmul (Fin (px (door_start door))) factor,
                                   jy = jsmul (Fin (py (door_start door))) factor\<rparr>,
                    sdoor_end = \<lparr>jx = jsmul (Fin (px (door_end door))) factor,
                                 jy = jsmul (Fin (py (door_end door))) factor\<rparr>,
                    sdoor_original = door_original door\<rparr>) doors,
          scaleFactor = factor\<rparr>)"

text \<open>The bounding box; \<open>centerX\<close> and \<open>centerY\<close> are absent from the box of no paths.\<close>

record boundingBox =
  minX :: jsnum
  minY :: jsnum
  maxX :: jsnum
  maxY :: jsnum
  width :: jsnum
  height :: jsnum
  centerX :: "jsnum option"
  centerY :: "jsnum option"

definition extendBox :: "jsnum \<times> jsnum \<times> jsnum \<times> jsnum \<Rightarrow> point
    \<Rightarrow> jsnum \<times> jsnum \<times> jsnum \<times> jsnum" where
  "extendBox b p =
     (case b of (mnX, mnY, mxX, mxY) \<Rightarrow>
        (jsmin mnX (Fin (px p)), jsmin mnY (Fin (py p)),
         jsmax mxX (Fin (px p)), jsmax mxY (Fin (py p))))"

definition extendBoxPath :: "jsnum \<times> jsnum \<times> jsnum \<times> jsnum \<Rightarrow> path
    \<Rightarrow> jsnum \<times> jsnum \<times> jsnum \<times> jsnum" where
  "extendBoxPath b path = (case path of None \<Rightarrow> b | Some segments \<Rightarrow> foldl extendBox b segments)"

definition findBoundingBox :: "path list \<Rightarrow> boundingBox" where
  "findBoundingBox paths =
     (if paths = [] then
        \<lparr>minX = Fin 0, minY = Fin 0, maxX = Fin 0, maxY = Fin 0,
         width = Fin 0, height = Fin 0, centerX = None, centerY = None\<rparr>
      else
        (case foldl extendBoxPath (PosInf, PosInf, NegInf, NegInf) paths of
           (mnX, mnY, mxX, mxY) \<Rightarrow>
             \<lparr>minX = mnX, minY = mnY, maxX = mxX, maxY = mxY,
              width = jssub mxX mnX, height = jssub mxY mnY,
              centerX = Some (jsdiv (jsadd mnX mxX) (Fin 2)),
              centerY = Some (jsdiv (jsadd mnY mxY) (Fin 2))\<rparr>))"

text \<open>The recognizer's answer.  \<open>dimension_value\<close> is optional in the schema of the
  request.\<close>

record dimensionData =
  dimension_text :: string
  dimension_value :: "real option"

text \<open>\<open>extractDimensionNumber\<close>: the request to the hosted model and the parsing of its
  answer are the parameter \<open>recognize\<close>, applied to the points of the paths that have
  any.\<close>

definition extractDimensionNumber :: "path list \<Rightarrow> (point list list \<Rightarrow> dimensionData option)
    \<Rightarrow> dimensionData option" where
  "extractDimensionNumber dimPaths recognize =
     (if dimPaths = [] then None
      else recognize (map the (filter (\<lambda>path. path \<noteq> None \<and> path \<noteq> Some []) dimPaths)))"

record wall =
  wall_id :: string
  start_point :: jpoint
  end_point :: jpoint

record finalJSON =
  walls :: "wall list"
  doors :: "scaledDoor list"

definition unscaledPoint :: "point \<Rightarrow> jpoint" where
  "unscaledPoint p = \<lparr>jx = Fin (px p), jy = Fin (py p)\<rparr>"

definition unscaledDoor :: "door \<Rightarrow> scaledDoor" where
  "unscaledDoor d =
     \<lparr>sdoor_start = unscaledPoint (door_start d), sdoor_end = unscaledPoint (door_end d),
      sdoor_original = door_original d\<rparr>"

text \<open>The conversion of the edges to walls; \<open>idx\<close> is the position of the edge.  A node
  index outside the array throws.\<close>

fun wallsFrom :: "jpoint list \<Rightarrow> nat \<Rightarrow> (nat \<times> nat) list \<Rightarrow> wall list option" where
  "wallsFrom ns idx [] = Some []"
| "wallsFrom ns idx (e # es) =
     (if fst e < length ns \<and> snd e < length ns then
        (case wallsFrom ns (Suc idx) es of
           None \<Rightarrow> None
         | Some ws \<Rightarrow>
             Some (\<lparr>wall_id = ''wall_'' @ showNat idx,
                    start_point = ns ! fst e, end_point = ns ! snd e\<rparr> # ws))
      else None)"

text \<open>\<open>send\<close>, from the three lists of paths to the object that is posted.  \<open>None\<close>: an
  exception reached the handler and nothing is posted.\<close>

definition send :: "path list \<Rightarrow> path list \<Rightarrow> path list
    \<Rightarrow> (point list list \<Rightarrow> dimensionData option) \<Rightarrow> finalJSON option" where
  "send wallPaths doorPaths dimsPath recognize =
     (let dimsBoundingBox = findBoundingBox dimsPath;
          length' = jsmax (height dimsBoundingBox) (width dimsBoundingBox);
          data = extractDimensionNumber dimsPath recognize
      in case createWallGraph wallPaths of
           None \<Rightarrow> None
         | Some wallGraph \<Rightarrow>
             (case findDoors doorPaths wallGraph of
                None \<Rightarrow> None
              | Some doorsData \<Rightarrow>
                  (let out =
                     (case data of
                        None \<Rightarrow> (map unscaledPoint (nodes wallGraph), map unscaledDoor doorsData)
                      | Some d \<Rightarrow>
                          (case dimension_value d of
                             None \<Rightarrow>
                               (map unscaledPoint (nodes wallGraph), map unscaledDoor doorsData)
                           | Some v \<Rightarrow>
                               if v \<noteq> 0 then
                                 (let s = scaleToRealWorld wallGraph doorsData v length'
                                  in (snodes (scaled_wallGraph s), scaled_doors s))
                               else
                                 (map unscaledPoint (nodes wallGraph),
                                  map unscaledDoor doorsData)))
                   in case wallsFrom (fst out) 0 (edges wallGraph) of
                        None \<Rightarrow> None
                      | Some ws \<Rightarrow> Some \<lparr>walls = ws, doors = snd out\<rparr>)))"

section \<open>Auxiliary notions for the proofs\<close>

abbreviation pt :: "real \<Rightarrow> real \<Rightarrow> point" where
  "pt a b \<equiv> \<lparr>px = a, py = b\<rparr>"

text \<open>Every edge refers to two different nodes that exist.\<close>

definition wellFormed :: "wallGraph \<Rightarrow> bool" where
  "wellFormed g \<longleftrightarrow>
     (\<forall>e\<in>set (edges g). fst e < length (nodes g) \<and> snd e < length (nodes g) \<and> fst e \<noteq> snd e)"

text \<open>The same record with the node list as each endpoint finds it: the triple
  \<open>(ns, p, idx)\<close> says that \<open>p\<close> was resolved to \<open>idx\<close> when the nodes were \<open>ns\<close>.\<close>

fun pathResolutions :: "point list \<Rightarrow> point list
    \<Rightarrow> (point list \<times> point \<times> nat) list \<times> point list" where
  "pathResolutions ns (p1 # p2 # rest) =
     (let r1 = findOrAddNode ns p1;
          r2 = findOrAddNode (snd r1) p2;
          r = pathResolutions (snd r2) (p2 # rest)
      in ((ns, p1, fst r1) # (snd r1, p2, fst r2) # fst r, snd r))"
| "pathResolutions ns rest = ([], ns)"

fun resolutions :: "point list \<Rightarrow> path list \<Rightarrow> (point list \<times> point \<times> nat) list" where
  "resolutions ns [] = []"
| "resolutions ns (None # paths) = resolutions ns paths"
| "resolutions ns (Some points # paths) =
     (let r = pathResolutions ns (removeColinearPoints points 10)
      in fst r @ resolutions (snd r) paths)"

text \<open>Node \<open>i\<close> is the first node, in insertion order, that is closer than \<open>mergeDistance\<close>
  to \<open>p\<close>.\<close>

definition firstClose :: "point list \<Rightarrow> nat \<Rightarrow> point \<Rightarrow> bool" where
  "firstClose ns i p \<longleftrightarrow>
     i < length ns \<and> distance (ns ! i) p < mergeDistance \<and>
     (\<forall>k<i. \<not> distance (ns ! k) p < mergeDistance)"

text \<open>The edges that the loop pushes, read off the recorded assignments: one candidate edge
  for each pair \<open>idx1\<close>, \<open>idx2\<close>, kept when the two differ.\<close>

fun edgesOf :: "(point \<times> nat) list \<Rightarrow> (nat \<times> nat) list" where
  "edgesOf (a # b # rest) = (if snd a \<noteq> snd b then [(snd a, snd b)] else []) @ edgesOf rest"
| "edgesOf rest = []"

text \<open>The door strokes that are not skipped: those with at least two segment points.\<close>

definition doorStrokes :: "path list \<Rightarrow> point list list" where
  "doorStrokes doorPaths =
     map the (filter (\<lambda>path. case path of None \<Rightarrow> False | Some segments \<Rightarrow> 2 \<le> length segments)
       doorPaths)"

text \<open>The rest \<open>es\<close> of the snapping pass, started on the nodes \<open>ns\<close>, does not disturb the
  \<open>y\<close> of the nodes \<open>i\<close> and \<open>j\<close>: every edge of \<open>es\<close> that has \<open>i\<close> or \<open>j\<close> as an endpoint and
  is classified near-horizontal when the pass reaches it joins two nodes that have the same
  \<open>y\<close> at that moment.  \<open>undisturbedX\<close> is the same for near-vertical edges and \<open>x\<close>.\<close>

fun undisturbedY :: "point list \<Rightarrow> (nat \<times> nat) list \<Rightarrow> nat \<Rightarrow> nat \<Rightarrow> bool" where
  "undisturbedY ns [] i j = True"
| "undisturbedY ns (e # es) i j =
     (((fst e \<in> {i, j} \<or> snd e \<in> {i, j}) \<and>
       isNearHorizontal (normalizedAngle (ns ! fst e) (ns ! snd e))
         \<longrightarrow> py (ns ! fst e) = py (ns ! snd e)) \<and>
      (case rectifyEdge ns e of None \<Rightarrow> True | Some ns' \<Rightarrow> undisturbedY ns' es i j))"

fun undisturbedX :: "point list \<Rightarrow> (nat \<times> nat) list \<Rightarrow> nat \<Rightarrow> nat \<Rightarrow> bool" where
  "undisturbedX ns [] i j = True"
| "undisturbedX ns (e # es) i j =
     (((fst e \<in> {i, j} \<or> snd e \<in> {i, j}) \<and>
       isNearVertical (normalizedAngle (ns ! fst e) (ns ! snd e))
         \<longrightarrow> px (ns ! fst e) = px (ns ! snd e)) \<and>
      (case rectifyEdge ns e of None \<Rightarrow> True | Some ns' \<Rightarrow> undisturbedX ns' es i j))"

section \<open>The simplifier\<close>

lemma loop_hd:
  "cleaned \<noteq> [] \<Longrightarrow>
   hd (removeColinearPoints_loop cleaned rest tol) = hd cleaned \<and>
   removeColinearPoints_loop cleaned rest tol \<noteq> []"
  by (induction cleaned rest tol rule: removeColinearPoints_loop.induct) auto

lemma loop_length:
  "rest \<noteq> [] \<Longrightarrow>
   Suc (length (removeColinearPoints_loop cleaned rest tol)) \<le> length cleaned + length rest"
  by (induction cleaned rest tol rule: removeColinearPoints_loop.induct) auto

lemma areColinear_coincident:
  "current = prev \<or> current = next \<Longrightarrow> areColinear prev current next tol"
  by (auto simp: areColinear_def Let_def)

lemma loop_drops_repeated:
  "removeColinearPoints_loop cleaned (pre @ p # p # ys) tol =
   removeColinearPoints_loop cleaned (pre @ p # ys) tol"
proof (induction pre arbitrary: cleaned)
  case Nil
  show ?case by (simp add: areColinear_coincident)
next
  case (Cons x pre)
  show ?case
  proof (cases pre)
    case Nil
    then show ?thesis by (simp add: areColinear_coincident)
  next
    case (Cons y pre')
    with Cons.IH show ?thesis by simp
  qed
qed

lemma loop_reach:
  "removeColinearPoints_loop cleaned (pre @ c # n # ys) tol =
   removeColinearPoints_loop (removeColinearPoints_loop cleaned (pre @ [c]) tol) (c # n # ys) tol"
proof (induction pre arbitrary: cleaned)
  case Nil
  show ?case by simp
next
  case (Cons x pre)
  show ?case
  proof (cases pre)
    case Nil
    then show ?thesis by simp
  next
    case (Cons y pre')
    with Cons.IH show ?thesis by simp
  qed
qed

text \<open>The retained list at the moment the loop reaches the interior point \<open>c\<close> that comes
  after the points \<open>xs\<close>, and the step the loop takes there.\<close>

lemma removeColinearPoints_reach:
  assumes "xs \<noteq> []"
  shows "removeColinearPoints (xs @ c # n # ys) tol =
     removeColinearPoints_loop
       (if \<not> areColinear (last (removeColinearPoints_loop [hd xs] (tl xs @ [c]) tol)) c n tol
        then removeColinearPoints_loop [hd xs] (tl xs @ [c]) tol @ [c]
        else removeColinearPoints_loop [hd xs] (tl xs @ [c]) tol)
       (n # ys) tol @ [last (n # ys)]"
proof -
  from assms obtain a xs' where xs: "xs = a # xs'" by (cases xs) auto
  have "removeColinearPoints (xs @ c # n # ys) tol =
      removeColinearPoints_loop [a] (xs' @ c # n # ys) tol @ [last (n # ys)]"
    by (simp add: removeColinearPoints_def xs)
  also have "removeColinearPoints_loop [a] (xs' @ c # n # ys) tol =
      removeColinearPoints_loop (removeColinearPoints_loop [a] (xs' @ [c]) tol) (c # n # ys) tol"
    by (rule loop_reach)
  finally show ?thesis by (simp add: xs)
qed

lemma removeColinearPoints_drops_repeated:
  assumes "xs \<noteq> []"
  shows "removeColinearPoints (xs @ p # p # ys) tol = removeColinearPoints (xs @ p # ys) tol"
proof -
  from assms obtain a xs' where xs: "xs = a # xs'" by (cases xs) auto
  have l: "removeColinearPoints (xs @ p # p # ys) tol =
      removeColinearPoints_loop [a] (xs' @ p # ys) tol @ [last (p # ys)]"
    by (simp add: removeColinearPoints_def xs loop_drops_repeated)
  show ?thesis
  proof (cases "xs' = [] \<and> ys = []")
    case True
    then show ?thesis by (simp add: removeColinearPoints_def xs areColinear_coincident)
  next
    case False
    then have "2 < length (xs @ p # ys)" by (cases xs'; cases ys) (simp_all add: xs)
    then have "removeColinearPoints (xs @ p # ys) tol =
        removeColinearPoints_loop [a] (xs' @ p # ys) tol @ [last (p # ys)]"
      by (simp add: removeColinearPoints_def xs)
    with l show ?thesis by simp
  qed
qed

text \<open>
  Claim C7.  A list of at most two points is returned unchanged.  On a longer list the
  output starts with the first input point, ends with the last one and is not longer than
  the input.  An interior point that coincides with the next raw point is dropped: the
  output is the output for the list without it.  An interior point \<open>c\<close> that coincides with
  the last retained point, which is the last element of the retained list the loop has
  built from the points \<open>xs\<close> before \<open>c\<close>, is dropped: the output is what the loop makes of
  that retained list and the points after \<open>c\<close>; for the second point of the stroke this is
  the output for the list without it.
\<close>

theorem simplifier_contract:
  "(length points \<le> 2 \<longrightarrow> removeColinearPoints points tol = points) \<and>
   (2 < length points \<longrightarrow>
      hd (removeColinearPoints points tol) = hd points \<and>
      last (removeColinearPoints points tol) = last points \<and>
      length (removeColinearPoints points tol) \<le> length points) \<and>
   (xs \<noteq> [] \<longrightarrow>
      removeColinearPoints (xs @ p # p # ys) tol = removeColinearPoints (xs @ p # ys) tol) \<and>
   (xs \<noteq> [] \<and> c = last (removeColinearPoints_loop [hd xs] (tl xs @ [c]) tol) \<longrightarrow>
      removeColinearPoints (xs @ c # n # ys) tol =
        removeColinearPoints_loop (removeColinearPoints_loop [hd xs] (tl xs @ [c]) tol)
          (n # ys) tol @ [last (n # ys)]) \<and>
   removeColinearPoints (a # a # n # ys) tol = removeColinearPoints (a # n # ys) tol"
proof (intro conjI impI)
  assume "length points \<le> 2"
  then show "removeColinearPoints points tol = points"
    by (simp add: removeColinearPoints_def)
next
  assume len: "2 < length points"
  then have ne: "tl points \<noteq> []" by (cases points) auto
  from len show "hd (removeColinearPoints points tol) = hd points"
    using loop_hd [of "[hd points]" "tl points" tol]
    by (simp add: removeColinearPoints_def)
  from len show "last (removeColinearPoints points tol) = last points"
    by (simp add: removeColinearPoints_def)
  from len show "length (removeColinearPoints points tol) \<le> length points"
    using loop_length [OF ne, of "[hd points]" tol]
    by (simp add: removeColinearPoints_def)
next
  assume "xs \<noteq> []"
  then show "removeColinearPoints (xs @ p # p # ys) tol = removeColinearPoints (xs @ p # ys) tol"
    by (rule removeColinearPoints_drops_repeated)
next
  assume a: "xs \<noteq> [] \<and> c = last (removeColinearPoints_loop [hd xs] (tl xs @ [c]) tol)"
  then have "areColinear (last (removeColinearPoints_loop [hd xs] (tl xs @ [c]) tol)) c n tol"
    by (intro areColinear_coincident) simp
  with a show "removeColinearPoints (xs @ c # n # ys) tol =
        removeColinearPoints_loop (removeColinearPoints_loop [hd xs] (tl xs @ [c]) tol)
          (n # ys) tol @ [last (n # ys)]"
    using removeColinearPoints_reach [of xs c n ys tol] by simp
next
  show "removeColinearPoints (a # a # n # ys) tol = removeColinearPoints (a # n # ys) tol"
    by (cases ys) (simp_all add: removeColinearPoints_def areColinear_coincident)
qed

theorem simplifier_contract_witness:
  "length [pt 0 0, pt 10 0] \<le> 2 \<and>
   removeColinearPoints [pt 0 0, pt 10 0] 10 = [pt 0 0, pt 10 0] \<and>
   2 < length [pt 0 0, pt 5 5, pt 5 5, pt 10 0] \<and>
   hd (removeColinearPoints [pt 0 0, pt 5 5, pt 5 5, pt 10 0] 10) = pt 0 0 \<and>
   last (removeColinearPoints [pt 0 0, pt 5 5, pt 5 5, pt 10 0] 10) = pt 10 0 \<and>
   length (removeColinearPoints [pt 0 0, pt 5 5, pt 5 5, pt 10 0] 10) \<le> 4 \<and>
   [pt 0 0] \<noteq> [] \<and>
   removeColinearPoints ([pt 0 0] @ pt 5 5 # pt 5 5 # [pt 10 0]) 10 =
     removeColinearPoints ([pt 0 0] @ pt 5 5 # [pt 10 0]) 10 \<and>
   removeColinearPoints ([pt 0 0] @ pt 5 5 # [pt 10 0]) 10 = [pt 0 0, pt 5 5, pt 10 0] \<and>
   pt 0 0 = last (removeColinearPoints_loop [hd [pt 0 0]] (tl [pt 0 0] @ [pt 0 0]) 10) \<and>
   removeColinearPoints ([pt 0 0] @ pt 0 0 # pt 5 5 # [pt 10 0]) 10 =
     removeColinearPoints_loop (removeColinearPoints_loop [hd [pt 0 0]] (tl [pt 0 0] @ [pt 0 0]) 10)
       (pt 5 5 # [pt 10 0]) 10 @ [last (pt 5 5 # [pt 10 0])] \<and>
   removeColinearPoints [pt 0 0, pt 0 0, pt 5 5, pt 10 0] 10 = [pt 0 0, pt 5 5, pt 10 0]"
  using simplifier_contract [of "[pt 0 0, pt 10 0]" 10 "[pt 0 0]" "pt 5 5" "[pt 10 0]"
      "pt 0 0" "pt 5 5" "pt 0 0"]
    simplifier_contract [of "[pt 0 0, pt 5 5, pt 5 5, pt 10 0]" 10 "[pt 0 0]" "pt 5 5" "[pt 10 0]"
      "pt 0 0" "pt 5 5" "pt 0 0"]
  by (simp add: removeColinearPoints_def areColinear_def Let_def)

subsection \<open>The angle test at the default tolerance\<close>

text \<open>Rational bounds for the cosine of ten degrees, from \<open>3 \<le> \<pi> < 4\<close> and the first terms
  of the cosine series.\<close>

lemma pi_ge_3: "3 \<le> pi"
proof -
  have "sin (pi / 6) \<le> pi / 6" by (rule sin_x_le_x) simp
  then show ?thesis by (simp add: sin_30)
qed

lemma cos_lower: "1 - x\<^sup>2 / 2 \<le> cos (x::real)"
proof -
  have "\<bar>sin (x / 2)\<bar> \<le> \<bar>x / 2\<bar>" by (rule abs_sin_x_le_abs_x)
  then have "(sin (x / 2))\<^sup>2 \<le> (x / 2)\<^sup>2" by (rule abs_le_square_iff [THEN iffD1])
  moreover have "cos x = 1 - 2 * (sin (x / 2))\<^sup>2"
    using cos_double_sin [of "x / 2"] by simp
  ultimately show ?thesis by (simp add: power2_eq_square)
qed

lemma cos_upper:
  assumes "0 < (x::real)"
  shows "cos x \<le> 1 - x\<^sup>2 / 2 + x ^ 4 / 24"
proof -
  obtain t where t: "cos x = (\<Sum>m<4. cos_coeff m * x ^ m)
      + (cos (t + 1/2 * real (4::nat) * pi) / fact 4) * x ^ 4"
    using Maclaurin_cos_expansion2 [OF assms, of 4] by auto
  have e: "(\<Sum>m<4. f m) = f 0 + f 1 + f 2 + f (3::nat)" for f :: "nat \<Rightarrow> real"
    by (simp add: numeral_eq_Suc lessThan_Suc)
  have s: "(\<Sum>m<4. cos_coeff m * x ^ m) = 1 - x\<^sup>2 / 2"
    unfolding e by (simp add: cos_coeff_def)
  have "cos (t + 1/2 * real (4::nat) * pi) \<le> 1" by (rule cos_le_one)
  then have "cos (t + 1/2 * real (4::nat) * pi) / fact 4 * x ^ 4 \<le> 1 / fact 4 * x ^ 4"
    by (intro mult_right_mono divide_right_mono) simp_all
  also have "\<dots> = x ^ 4 / 24" by (simp add: eval_nat_numeral)
  finally show ?thesis using t s by simp
qed

lemma cos_pi18_bounds: "39 / 40 \<le> cos (pi / 18)" "cos (pi / 18) \<le> 987 / 1000"
proof -
  have "cos (2 / 9) \<le> cos (pi / 18)"
    using pi_less_4 pi_ge_3 by (intro cos_monotone_0_pi_le) simp_all
  moreover have "1 - (2 / 9)\<^sup>2 / 2 \<le> cos (2 / 9 :: real)" by (rule cos_lower)
  ultimately show "39 / 40 \<le> cos (pi / 18)" by (simp add: power2_eq_square)
  have "cos (pi / 18) \<le> cos (1 / 6)"
    using pi_less_4 pi_ge_3 by (intro cos_monotone_0_pi_le) simp_all
  moreover have "cos (1 / 6 :: real) \<le> 1 - (1 / 6)\<^sup>2 / 2 + (1 / 6) ^ 4 / 24"
    by (rule cos_upper) simp
  ultimately show "cos (pi / 18) \<le> 987 / 1000" by (simp add: power2_eq_square eval_nat_numeral)
qed

lemma within_10_iff:
  assumes "- 1 \<le> c" "c \<le> 1"
  shows "\<bar>180 - arccos c * (180 / pi)\<bar> \<le> 10 \<longleftrightarrow> c \<le> - cos (pi / 18)"
proof -
  have b: "0 \<le> arccos c" "arccos c \<le> pi" using assms arccos_bounded by auto
  have "arccos c * (180 / pi) \<le> 180"
    using b by (simp add: field_simps)
  then have "\<bar>180 - arccos c * (180 / pi)\<bar> \<le> 10 \<longleftrightarrow> 170 \<le> arccos c * (180 / pi)"
    by auto
  also have "\<dots> \<longleftrightarrow> pi - pi / 18 \<le> arccos c"
    by (simp add: field_simps)
  also have "\<dots> \<longleftrightarrow> cos (arccos c) \<le> cos (pi - pi / 18)"
    using b by (subst cos_mono_le_eq) simp_all
  also have "\<dots> \<longleftrightarrow> c \<le> - cos (pi / 18)"
    by (simp only: cos_pi_minus cos_arccos [OF assms])
  finally show ?thesis .
qed

lemma areColinear_10_clamped:
  assumes "0 < a" "0 < b"
    and "a = (px p1 - px p2) * (px p1 - px p2) + (py p1 - py p2) * (py p1 - py p2)"
    and "b = (px p3 - px p2) * (px p3 - px p2) + (py p3 - py p2) * (py p3 - py p2)"
    and "d = (px p1 - px p2) * (px p3 - px p2) + (py p1 - py p2) * (py p3 - py p2)"
  shows "areColinear p1 p2 p3 10 \<longleftrightarrow> max (- 1) (min 1 (d / sqrt (a * b))) \<le> - cos (pi / 18)"
proof -
  have "sqrt a \<noteq> 0" "sqrt b \<noteq> 0" using assms(1,2) by simp_all
  then have "areColinear p1 p2 p3 10 \<longleftrightarrow>
      \<bar>180 - arccos (max (- 1) (min 1 (d / (sqrt a * sqrt b)))) * (180 / pi)\<bar> \<le> 10"
    unfolding areColinear_def Let_def assms(3-5) [symmetric] by simp
  also have "\<dots> \<longleftrightarrow> max (- 1) (min 1 (d / (sqrt a * sqrt b))) \<le> - cos (pi / 18)"
    by (rule within_10_iff) simp_all
  finally show ?thesis by (simp add: real_sqrt_mult)
qed

text \<open>Two tests on the squared lengths \<open>a\<close>, \<open>b\<close> and the dot product \<open>d\<close> of the two
  vectors: the bend is less than ten degrees, or it is more.\<close>

lemma areColinear_10_yes:
  assumes "0 < a" "0 < b"
    and "a = (px p1 - px p2) * (px p1 - px p2) + (py p1 - py p2) * (py p1 - py p2)"
    and "b = (px p3 - px p2) * (px p3 - px p2) + (py p3 - py p2) * (py p3 - py p2)"
    and "d = (px p1 - px p2) * (px p3 - px p2) + (py p1 - py p2) * (py p3 - py p2)"
    and "d \<le> 0" and "974169 * (a * b) \<le> 1000000 * (d * d)"
  shows "areColinear p1 p2 p3 10"
proof -
  let ?s = "sqrt (a * b)"
  have s: "0 < ?s" using assms(1,2) by simp
  have ss: "?s * ?s = a * b" using assms(1,2) by simp
  have "(987 * ?s)\<^sup>2 = 974169 * (?s * ?s)" by (simp add: power2_eq_square)
  also have "\<dots> \<le> 1000000 * (d * d)" using assms(7) by (simp only: ss)
  also have "\<dots> = (1000 * \<bar>d\<bar>)\<^sup>2" by (simp add: power2_eq_square)
  finally have "987 * ?s \<le> 1000 * \<bar>d\<bar>"
    by (rule power2_le_imp_le) simp
  then have "d \<le> - (987 / 1000) * ?s" using assms(6) by simp
  then have "d / ?s \<le> - (987 / 1000)" using s by (simp add: field_simps)
  then have "max (- 1) (min 1 (d / ?s)) \<le> - (987 / 1000)" by simp
  also have "\<dots> \<le> - cos (pi / 18)" using cos_pi18_bounds by simp
  finally show ?thesis
    using areColinear_10_clamped [OF assms(1-5)] by simp
qed

lemma areColinear_10_no:
  assumes "0 < a" "0 < b"
    and "a = (px p1 - px p2) * (px p1 - px p2) + (py p1 - py p2) * (py p1 - py p2)"
    and "b = (px p3 - px p2) * (px p3 - px p2) + (py p3 - py p2) * (py p3 - py p2)"
    and "d = (px p1 - px p2) * (px p3 - px p2) + (py p1 - py p2) * (py p3 - py p2)"
    and "1600 * (d * d) < 1521 * (a * b)"
  shows "\<not> areColinear p1 p2 p3 10"
proof -
  let ?s = "sqrt (a * b)"
  have s: "0 < ?s" using assms(1,2) by simp
  have ss: "?s * ?s = a * b" using assms(1,2) by simp
  have "(40 * \<bar>d\<bar>)\<^sup>2 = 1600 * (d * d)" by (simp add: power2_eq_square)
  also have "\<dots> < 1521 * (?s * ?s)" using assms(6) by (simp only: ss)
  also have "\<dots> = (39 * ?s)\<^sup>2" by (simp add: power2_eq_square)
  finally have "40 * \<bar>d\<bar> < 39 * ?s"
    using s by (intro power2_less_imp_less [of "40 * \<bar>d\<bar>" "39 * ?s"]) simp_all
  then have "- (39 / 40) * ?s < d" by simp
  then have "- (39 / 40) < d / ?s" using s by (simp add: field_simps)
  then have "- (39 / 40) < max (- 1) (min 1 (d / ?s))" by simp
  moreover have "- cos (pi / 18) \<le> - (39 / 40)" using cos_pi18_bounds by simp
  ultimately have "\<not> max (- 1) (min 1 (d / ?s)) \<le> - cos (pi / 18)" by linarith
  then show ?thesis
    using areColinear_10_clamped [OF assms(1-5)] by simp
qed

subsection \<open>A second pass\<close>

text \<open>The stroke \<open>(0,0), (10,0), (20,3), (120,17)\<close> at the default tolerance.  The bend at
  \<open>(10,0)\<close> towards \<open>(20,3)\<close> is about 16.7 degrees, so the point is kept; the bend at
  \<open>(20,3)\<close> is about 8.7 degrees, so that point goes.  In the output the point after
  \<open>(10,0)\<close> is \<open>(120,17)\<close>, the bend there is about 8.8 degrees, and a second pass removes
  \<open>(10,0)\<close> as well.\<close>

lemma bend_kept: "\<not> areColinear (pt 0 0) (pt 10 0) (pt 20 3) 10"
  by (rule areColinear_10_no [where a = 100 and b = 109 and d = "- 100"]) simp_all

lemma bend_dropped: "areColinear (pt 10 0) (pt 20 3) (pt 120 17) 10"
  by (rule areColinear_10_yes [where a = 109 and b = 10196 and d = "- 1042"]) simp_all

lemma bend_second_pass: "areColinear (pt 0 0) (pt 10 0) (pt 120 17) 10"
  by (rule areColinear_10_yes [where a = 100 and b = 12389 and d = "- 1100"]) simp_all

lemma first_pass:
  "removeColinearPoints [pt 0 0, pt 10 0, pt 20 3, pt 120 17] 10 = [pt 0 0, pt 10 0, pt 120 17]"
  by (simp add: removeColinearPoints_def bend_kept bend_dropped)

lemma second_pass:
  "removeColinearPoints [pt 0 0, pt 10 0, pt 120 17] 10 = [pt 0 0, pt 120 17]"
  by (simp add: removeColinearPoints_def bend_second_pass)

text \<open>
  Claim C5, as stated: for every point list and tolerance the simplifier returns its own
  output unchanged.  It does not on the stroke above: the first pass returns three points
  and the second pass two.
\<close>

theorem simplifier_idempotent_counterexample:
  "removeColinearPoints (removeColinearPoints [pt 0 0, pt 10 0, pt 20 3, pt 120 17] 10) 10
     \<noteq> removeColinearPoints [pt 0 0, pt 10 0, pt 20 3, pt 120 17] 10"
  by (simp add: first_pass second_pass)

text \<open>
  Claim C5, amended: for every point list of at most three points and every tolerance, the
  simplifier returns its own output unchanged.  (A stroke of three points has one interior
  point; when it is kept the second pass repeats the same test, and when it is dropped two
  points are left.)
\<close>

theorem simplifier_idempotent_upto_3:
  "length points \<le> 3 \<Longrightarrow>
   removeColinearPoints (removeColinearPoints points tol) tol = removeColinearPoints points tol"
proof -
  assume "length points \<le> 3"
  then consider "length points \<le> 2" | a b c where "points = [a, b, c]"
    by (cases points; cases "tl points"; cases "tl (tl points)"; cases "tl (tl (tl points))") auto
  then show ?thesis
  proof cases
    case 1
    then show ?thesis by (simp add: removeColinearPoints_def)
  next
    case 2
    then show ?thesis by (simp add: removeColinearPoints_def)
  qed
qed

theorem simplifier_idempotent_upto_3_witness:
  "length [pt 0 0, pt 5 5, pt 10 0] \<le> 3 \<and>
   removeColinearPoints (removeColinearPoints [pt 0 0, pt 5 5, pt 10 0] 10) 10 =
     removeColinearPoints [pt 0 0, pt 5 5, pt 10 0] 10 \<and>
   removeColinearPoints [pt 0 0, pt 5 5, pt 10 0] 10 = [pt 0 0, pt 5 5, pt 10 0]"
  using simplifier_idempotent_upto_3 [of "[pt 0 0, pt 5 5, pt 10 0]" 10]
  by (simp add: removeColinearPoints_def areColinear_def Let_def)

section \<open>The graph builder\<close>

lemma findIndex_Some:
  "findIndex P xs = Some i \<Longrightarrow> i < length xs \<and> P (xs ! i) \<and> (\<forall>j<i. \<not> P (xs ! j))"
proof (induction xs arbitrary: i)
  case Nil
  then show ?case by simp
next
  case (Cons x xs)
  show ?case
  proof (cases "P x")
    case True
    with Cons.prems show ?thesis by simp
  next
    case False
    with Cons.prems obtain k where k: "findIndex P xs = Some k" "i = Suc k" by auto
    from Cons.IH [OF k(1)] False k(2) show ?thesis
      by (auto simp: nth_Cons split: nat.splits)
  qed
qed

lemma findIndex_None: "findIndex P xs = None \<Longrightarrow> \<forall>x\<in>set xs. \<not> P x"
  by (induction xs) (auto split: if_splits)

lemma distance_self: "distance p p = 0"
  by (simp add: distance_def)

lemma mergeDistance_pos: "0 < mergeDistance"
  by (simp add: mergeDistance_def)

lemma distance_less_iff:
  "distance p q < mergeDistance \<longleftrightarrow> (px p - px q)\<^sup>2 + (py p - py q)\<^sup>2 < 1600"
proof -
  have "distance p q < mergeDistance \<longleftrightarrow>
      sqrt ((px p - px q)\<^sup>2 + (py p - py q)\<^sup>2) < sqrt (40\<^sup>2)"
    by (simp add: distance_def mergeDistance_def)
  also have "\<dots> \<longleftrightarrow> (px p - px q)\<^sup>2 + (py p - py q)\<^sup>2 < 40\<^sup>2"
    by (rule real_sqrt_less_iff)
  finally show ?thesis by simp
qed

lemma findOrAddNode_props:
  assumes "findOrAddNode ns p = (i, ns')"
  shows "i < length ns'" and "\<exists>ys. ns' = ns @ ys" and "distance (ns' ! i) p < mergeDistance"
    and "\<forall>j<i. \<not> distance (ns' ! j) p < mergeDistance"
proof -
  show "i < length ns'" "\<exists>ys. ns' = ns @ ys" "distance (ns' ! i) p < mergeDistance"
    using assms findIndex_Some [of "\<lambda>n. distance n p < mergeDistance" ns]
    by (auto simp: findOrAddNode_def distance_self mergeDistance_pos split: option.splits)
  show "\<forall>j<i. \<not> distance (ns' ! j) p < mergeDistance"
  proof (cases "findIndex (\<lambda>n. distance n p < mergeDistance) ns")
    case None
    with assms have "i = length ns" "ns' = ns @ [p]" by (auto simp: findOrAddNode_def)
    with findIndex_None [OF None] show ?thesis by (auto simp: nth_append)
  next
    case (Some k)
    with assms have "i = k" "ns' = ns" by (auto simp: findOrAddNode_def)
    with findIndex_Some [OF Some] show ?thesis by auto
  qed
qed

lemma addPathEdges_step:
  assumes "findOrAddNode (nodes g) p1 = (i1, ns1)" and "findOrAddNode ns1 p2 = (i2, ns2)"
  shows "addPathEdges g (p1 # p2 # rest) =
    addPathEdges
      \<lparr>nodes = ns2, edges = (if i1 \<noteq> i2 then edges g @ [(i1, i2)] else edges g)\<rparr> (p2 # rest)"
  using assms by (simp add: Let_def)

lemma addPathEdges_wellFormed_Cons:
  "wellFormed g \<Longrightarrow> wellFormed (addPathEdges g (p # ps))"
proof (induction ps arbitrary: g p)
  case Nil
  then show ?case by simp
next
  case (Cons q ps)
  obtain i1 ns1 where r1: "findOrAddNode (nodes g) p = (i1, ns1)"
    by (cases "findOrAddNode (nodes g) p")
  obtain i2 ns2 where r2: "findOrAddNode ns1 q = (i2, ns2)"
    by (cases "findOrAddNode ns1 q")
  from findOrAddNode_props [OF r1] findOrAddNode_props [OF r2]
  have b: "i1 < length ns2" "i2 < length ns2" "length (nodes g) \<le> length ns2" by auto
  let ?g = "\<lparr>nodes = ns2, edges = (if i1 \<noteq> i2 then edges g @ [(i1, i2)] else edges g)\<rparr>"
  have "wellFormed ?g"
    using Cons.prems b by (auto simp: wellFormed_def)
  then have "wellFormed (addPathEdges ?g (q # ps))" by (rule Cons.IH)
  then show ?case by (simp only: addPathEdges_step [OF r1 r2])
qed

lemma addPathEdges_wellFormed: "wellFormed g \<Longrightarrow> wellFormed (addPathEdges g ps)"
  by (cases ps) (simp_all add: addPathEdges_wellFormed_Cons)

lemma processPath_wellFormed: "wellFormed g \<Longrightarrow> wellFormed (processPath g p)"
  by (cases p) (simp_all add: processPath_def addPathEdges_wellFormed)

lemma foldl_processPath_wellFormed: "wellFormed g \<Longrightarrow> wellFormed (foldl processPath g ps)"
  by (induction ps arbitrary: g) (simp_all add: processPath_wellFormed)

lemma buildGraph_wellFormed: "wellFormed (buildGraph ps)"
  unfolding buildGraph_def by (rule foldl_processPath_wellFormed) (simp add: wellFormed_def)

subsection \<open>The snapping pass does not throw\<close>

lemma rectifyEdge_length: "rectifyEdge ns e = Some ns' \<Longrightarrow> length ns' = length ns"
  by (auto simp: rectifyEdge_def Let_def split: if_splits)

lemma rectifyEdge_total:
  "fst e < length ns \<Longrightarrow> snd e < length ns \<Longrightarrow> \<exists>ns'. rectifyEdge ns e = Some ns'"
  by (auto simp: rectifyEdge_def Let_def)

lemma rectifyEdges_total:
  "\<forall>e\<in>set es. fst e < length ns \<and> snd e < length ns \<Longrightarrow>
   \<exists>ns'. rectifyEdges ns es = Some ns' \<and> length ns' = length ns"
proof (induction es arbitrary: ns)
  case Nil
  then show ?case by simp
next
  case (Cons e es)
  then obtain ns1 where s: "rectifyEdge ns e = Some ns1"
    using rectifyEdge_total [of e ns] by auto
  then have l: "length ns1 = length ns" by (rule rectifyEdge_length)
  with Cons.prems have "\<forall>e\<in>set es. fst e < length ns1 \<and> snd e < length ns1" by simp
  from Cons.IH [OF this] s l show ?case by simp
qed

lemma createWallGraph_total:
  "\<exists>ns. rectifyEdges (nodes (buildGraph ps)) (edges (buildGraph ps)) = Some ns \<and>
     length ns = length (nodes (buildGraph ps)) \<and>
     createWallGraph ps =
       Some \<lparr>nodes = ns, edges = map snd (uniqueEdges (edges (buildGraph ps)))\<rparr>"
proof -
  have "\<forall>e\<in>set (edges (buildGraph ps)).
      fst e < length (nodes (buildGraph ps)) \<and> snd e < length (nodes (buildGraph ps))"
    using buildGraph_wellFormed [of ps] by (simp add: wellFormed_def)
  from rectifyEdges_total [OF this] show ?thesis
    by (auto simp: createWallGraph_def Let_def)
qed

subsection \<open>Deduplication\<close>

lemma mapSet_snd: "set (map snd (mapSet m k v)) \<subseteq> insert v (set (map snd m))"
  by (induction m k v rule: mapSet.induct) auto

lemma uniqueEdges_fold_subset:
  "set (map snd (foldl (\<lambda>m e. mapSet m (edgeKey e) e) m es)) \<subseteq> set (map snd m) \<union> set es"
proof (induction es arbitrary: m)
  case Nil
  then show ?case by simp
next
  case (Cons e es)
  show ?case
    using Cons.IH [of "mapSet m (edgeKey e) e"] mapSet_snd [of m "edgeKey e" e] by auto
qed

lemma uniqueEdges_subset: "set (map snd (uniqueEdges es)) \<subseteq> set es"
  using uniqueEdges_fold_subset [of "[]" es] by (simp add: uniqueEdges_def)

lemma mapSet_keys: "set (map fst (mapSet m k v)) = insert k (set (map fst m))"
  by (induction m k v rule: mapSet.induct) auto

lemma mapSet_distinct: "distinct (map fst m) \<Longrightarrow> distinct (map fst (mapSet m k v))"
proof (induction m k v rule: mapSet.induct)
  case (1 k v)
  then show ?case by simp
next
  case (2 k' v' m k v)
  then show ?case using mapSet_keys [of m k v] by auto
qed

lemma mapSet_keyed:
  "map fst m = map (\<lambda>x. f (snd x)) m \<Longrightarrow>
   map fst (mapSet m (f v) v) = map (\<lambda>x. f (snd x)) (mapSet m (f v) v)"
  by (induction m "f v" v rule: mapSet.induct) simp_all

lemma uniqueEdges_fold_inv:
  "distinct (map fst m) \<Longrightarrow> map fst m = map (\<lambda>x. edgeKey (snd x)) m \<Longrightarrow>
   distinct (map fst (foldl (\<lambda>m e. mapSet m (edgeKey e) e) m es)) \<and>
   map fst (foldl (\<lambda>m e. mapSet m (edgeKey e) e) m es) =
     map (\<lambda>x. edgeKey (snd x)) (foldl (\<lambda>m e. mapSet m (edgeKey e) e) m es)"
proof (induction es arbitrary: m)
  case Nil
  from Nil.prems show ?case unfolding foldl_Nil by (rule conjI)
next
  case (Cons e es)
  have a: "distinct (map fst (mapSet m (edgeKey e) e))"
    using Cons.prems(1) by (rule mapSet_distinct)
  have b: "map fst (mapSet m (edgeKey e) e) =
      map (\<lambda>x. edgeKey (snd x)) (mapSet m (edgeKey e) e)"
    using Cons.prems(2) by (rule mapSet_keyed)
  show ?case unfolding foldl_Cons by (rule Cons.IH [OF a b])
qed

lemma uniqueEdges_keys_distinct: "distinct (map edgeKey (map snd (uniqueEdges es)))"
proof -
  have "distinct (map fst (uniqueEdges es)) \<and>
    map fst (uniqueEdges es) = map (\<lambda>x. edgeKey (snd x)) (uniqueEdges es)"
    unfolding uniqueEdges_def by (rule uniqueEdges_fold_inv) simp_all
  then have "distinct (map (\<lambda>x. edgeKey (snd x)) (uniqueEdges es))" by metis
  then show ?thesis by (simp add: o_def)
qed

text \<open>The key is computed from the smaller and the larger index, so it is the same for the
  two directions of an edge.\<close>

lemma edgeKey_unordered:
  assumes "{fst e, snd e} = {fst e', snd e'}"
  shows "edgeKey e = edgeKey e'"
proof -
  from assms have "(fst e = fst e' \<and> snd e = snd e') \<or> (fst e = snd e' \<and> snd e = fst e')"
    by (auto simp: doubleton_eq_iff)
  then show ?thesis by (auto simp: edgeKey_def min.commute max.commute)
qed

lemma distinct_map_coarser:
  assumes "distinct (map g xs)" and "\<And>x y. f x = f y \<Longrightarrow> g x = g y"
  shows "distinct (map f xs)"
proof -
  from assms(1) have d: "distinct xs" and i: "inj_on g (set xs)"
    by (simp_all only: distinct_map)
  have "inj_on f (set xs)"
  proof (rule inj_onI)
    fix x y
    assume x: "x \<in> set xs" and y: "y \<in> set xs" and e: "f x = f y"
    from assms(2) [OF e] have "g x = g y" .
    from inj_onD [OF i this x y] show "x = y" .
  qed
  with d show ?thesis by (simp only: distinct_map)
qed

lemma uniqueEdges_unordered_distinct:
  "distinct (map (\<lambda>e. {fst e, snd e}) (map snd (uniqueEdges es)))"
  using uniqueEdges_keys_distinct by (rule distinct_map_coarser) (rule edgeKey_unordered)

lemma showNat_digit: "n < 10 \<Longrightarrow> showNat n = [char_of (48 + n)]"
  by (simp add: showNat.simps)

text \<open>
  Claim C9.  The graph builder returns a graph, and in its edge list, which is the list left
  by the deduplication step, no two entries have the same unordered pair of node indices.
\<close>

theorem edges_unique:
  "\<exists>g. createWallGraph wallPaths = Some g \<and> distinct (map (\<lambda>e. {fst e, snd e}) (edges g))"
proof -
  obtain ns where "createWallGraph wallPaths =
      Some \<lparr>nodes = ns, edges = map snd (uniqueEdges (edges (buildGraph wallPaths)))\<rparr>"
    using createWallGraph_total [of wallPaths] by blast
  then show ?thesis
    using uniqueEdges_unordered_distinct [of "edges (buildGraph wallPaths)"] by simp
qed

section \<open>The snapping pass\<close>

lemma jsmod_nonneg_small: "0 \<le> a \<Longrightarrow> a < b \<Longrightarrow> jsmod a b = a"
proof -
  assume a: "0 \<le> a" "a < b"
  then have "0 \<le> a / b" "a / b < 1" by simp_all
  then have "\<lfloor>a / b\<rfloor> = 0" by linarith
  with \<open>0 \<le> a / b\<close> show ?thesis by (simp add: jsmod_def)
qed

lemma jsmod_neg_small: "a < 0 \<Longrightarrow> - b < a \<Longrightarrow> jsmod a b = a"
proof -
  assume a: "a < 0" "- b < a"
  then have b: "0 < b" by simp
  with a have "a / b < 0" "- 1 < a / b" by (simp_all add: field_simps)
  then have "\<lceil>a / b\<rceil> = 0" by linarith
  with \<open>a / b < 0\<close> show ?thesis by (simp add: jsmod_def)
qed

lemma jsmod_second: "0 \<le> a \<Longrightarrow> a < b \<Longrightarrow> jsmod (a + b) b = a"
proof -
  assume a: "0 \<le> a" "a < b"
  then have "b > 0" by simp
  then have e: "(a + b) / b = a / b + 1" by (simp add: field_simps)
  from a have "0 \<le> a / b" "a / b < 1" by simp_all
  then have "\<lfloor>a / b + 1\<rfloor> = 1" by linarith
  with \<open>0 \<le> a / b\<close> e \<open>b > 0\<close> show ?thesis by (simp add: jsmod_def algebra_simps)
qed

lemma atan2_bounds: "- pi < atan2 y x \<and> atan2 y x \<le> pi"
proof -
  have a: "- (pi / 2) < arctan (y / x)" "arctan (y / x) < pi / 2"
    by (rule arctan_lbound, rule arctan_ubound)
  have "0 \<le> y \<Longrightarrow> x < 0 \<Longrightarrow> arctan (y / x) \<le> 0"
    by (simp add: divide_nonneg_neg)
  moreover have "y < 0 \<Longrightarrow> x < 0 \<Longrightarrow> 0 < arctan (y / x)"
    by (simp add: divide_neg_neg)
  ultimately show ?thesis using a pi_gt_zero unfolding atan2_def
    by (auto simp del: pi_gt_zero arctan_le_zero_iff zero_less_arctan_iff) 
qed

lemma normalizedAngle_eq:
  "normalizedAngle n1 n2 =
     (let d = atan2 (py n2 - py n1) (px n2 - px n1) * (180 / pi)
      in if 0 \<le> d then d else d + 360)"
proof -
  define d where "d = atan2 (py n2 - py n1) (px n2 - px n1) * (180 / pi)"
  have "- pi < atan2 (py n2 - py n1) (px n2 - px n1)" "atan2 (py n2 - py n1) (px n2 - px n1) \<le> pi"
    using atan2_bounds by auto
  then have b: "- 180 < d" "d \<le> 180"
    unfolding d_def by (simp_all add: field_simps)
  have "jsmod (jsmod d 360 + 360) 360 = (if 0 \<le> d then d else d + 360)"
  proof (cases "0 \<le> d")
    case True
    with b have "jsmod d 360 = d" by (intro jsmod_nonneg_small) simp_all
    moreover have "jsmod (d + 360) 360 = d" using True b by (intro jsmod_second) simp_all
    ultimately show ?thesis using True by simp
  next
    case False
    with b have "jsmod d 360 = d" by (intro jsmod_neg_small) simp_all
    moreover have "jsmod (d + 360) 360 = d + 360" using False b by (intro jsmod_nonneg_small) simp_all
    ultimately show ?thesis using False by simp
  qed
  then show ?thesis by (simp add: normalizedAngle_def Let_def d_def)
qed


lemma tan_pi18_ge: "1 / 10 \<le> tan (pi / 18)"
proof -
  have c: "0 < cos (pi / 18)" "cos (pi / 18) \<le> 1"
    using cos_pi18_bounds(1) by simp_all
  have s0: "0 \<le> sin (pi / 18)" by (rule sin_ge_zero) simp_all
  have "(cos (pi / 18))\<^sup>2 \<le> (987 / 1000)\<^sup>2"
    using cos_pi18_bounds(2) c(1) by (intro power_mono) simp_all
  moreover have "(987 / 1000 :: real)\<^sup>2 \<le> 1 - (1 / 10)\<^sup>2"
    by (simp add: power2_eq_square)
  moreover have "(sin (pi / 18))\<^sup>2 = 1 - (cos (pi / 18))\<^sup>2"
    by (rule sin_squared_eq)
  ultimately have "(1 / 10)\<^sup>2 \<le> (sin (pi / 18))\<^sup>2"
    by linarith
  then have "1 / 10 \<le> sin (pi / 18)"
    using s0 by (intro power2_le_imp_le [of "1 / 10" "sin (pi / 18)"]) simp_all
  also have "\<dots> \<le> sin (pi / 18) / cos (pi / 18)"
  proof -
    have "cos (pi / 18) * sin (pi / 18) \<le> 1 * sin (pi / 18)"
      using c(2) s0 by (rule mult_right_mono)
    then show ?thesis using c(1) by (simp add: field_simps)
  qed
  finally show ?thesis by (simp add: tan_def)
qed

lemma arctan_tenth: "arctan (1 / 10) \<le> pi / 18"
proof -
  have "arctan (1 / 10) \<le> arctan (tan (pi / 18))"
    using tan_pi18_ge by (simp only: arctan_le_iff)
  also have "\<dots> = pi / 18" by (rule arctan_tan) simp_all
  finally show ?thesis .
qed

lemma nearHorizontal_shallow:
  assumes "0 < px n2 - px n1" "0 \<le> py n2 - py n1" "10 * (py n2 - py n1) \<le> px n2 - px n1"
  shows "isNearHorizontal (normalizedAngle n1 n2)"
proof -
  let ?q = "(py n2 - py n1) / (px n2 - px n1)"
  have q: "0 \<le> ?q" "?q \<le> 1 / 10" using assms by (simp_all add: field_simps)
  have a: "atan2 (py n2 - py n1) (px n2 - px n1) = arctan ?q"
    using assms(1) by (simp add: atan2_def)
  have "arctan ?q \<le> arctan (1 / 10)" using q(2) by (simp only: arctan_le_iff)
  with arctan_tenth have u: "arctan ?q \<le> pi / 18" by simp
  have l: "0 \<le> arctan ?q" using q(1) by simp
  have "0 \<le> arctan ?q * (180 / pi)" using l by simp
  moreover have "arctan ?q * (180 / pi) \<le> 10" using u by (simp add: field_simps)
  ultimately show ?thesis
    unfolding normalizedAngle_eq a Let_def isNearHorizontal_def snapTolerance_def by simp
qed

lemma build_ex:
  "buildGraph [Some [pt 0 0, pt 100 0], Some [pt 100 0, pt 200 10]] =
     \<lparr>nodes = [pt 0 0, pt 100 0, pt 200 10], edges = [(0, 1), (1, 2)]\<rparr>"
  by (simp add: buildGraph_def processPath_def removeColinearPoints_def Let_def
      findOrAddNode_def distance_less_iff)

lemma rect1: "rectifyEdge [pt 0 0, pt 100 0, pt 200 10] (0, 1) = Some [pt 0 0, pt 100 0, pt 200 10]"
proof -
  have "isNearHorizontal (normalizedAngle (pt 0 0) (pt 100 0))"
    by (rule nearHorizontal_shallow) simp_all
  then show ?thesis by (simp add: rectifyEdge_def Let_def)
qed

lemma rect2: "rectifyEdge [pt 0 0, pt 100 0, pt 200 10] (1, 2) = Some [pt 0 0, pt 100 5, pt 200 5]"
proof -
  have "isNearHorizontal (normalizedAngle (pt 100 0) (pt 200 10))"
    by (rule nearHorizontal_shallow) simp_all
  then show ?thesis by (simp add: rectifyEdge_def Let_def)
qed

lemma dedup_ex: "map snd (uniqueEdges [(0, 1), (1, 2)]) = [(0, 1), (1, 2)]"
  by (simp add: uniqueEdges_def edgeKey_def showNat_digit)

lemma cwg_ex:
  "createWallGraph [Some [pt 0 0, pt 100 0], Some [pt 100 0, pt 200 10]] =
     Some \<lparr>nodes = [pt 0 0, pt 100 5, pt 200 5], edges = [(0, 1), (1, 2)]\<rparr>"
  by (simp add: createWallGraph_def build_ex rect1 [unfolded One_nat_def]
      rect2 [unfolded One_nat_def] dedup_ex [unfolded One_nat_def])

lemma isNearVertical_not_horizontal: "isNearVertical a \<Longrightarrow> \<not> isNearHorizontal a"
  unfolding isNearVertical_def isNearHorizontal_def snapTolerance_def by linarith

lemma rectifyEdge_other:
  "rectifyEdge ns e = Some ns' \<Longrightarrow> k \<noteq> fst e \<Longrightarrow> k \<noteq> snd e \<Longrightarrow> ns' ! k = ns ! k"
  by (auto simp: rectifyEdge_def Let_def split: if_splits)

lemma rectifyEdges_append:
  "rectifyEdges ns (xs @ ys) =
     (case rectifyEdges ns xs of None \<Rightarrow> None | Some ns' \<Rightarrow> rectifyEdges ns' ys)"
  by (induction xs arbitrary: ns) (simp_all split: option.splits)

lemma rectifyEdge_horizontal:
  assumes "rectifyEdge ns (i, j) = Some ns'"
    and "isNearHorizontal (normalizedAngle (ns ! i) (ns ! j))"
  shows "py (ns' ! i) = py (ns' ! j)"
proof -
  from assms(1) have b: "i < length ns" "j < length ns"
    by (auto simp: rectifyEdge_def Let_def split: if_splits)
  with assms show ?thesis
    by (cases "i = j") (auto simp: rectifyEdge_def Let_def)
qed

lemma rectifyEdge_vertical:
  assumes "rectifyEdge ns (i, j) = Some ns'"
    and "isNearVertical (normalizedAngle (ns ! i) (ns ! j))"
  shows "px (ns' ! i) = px (ns' ! j)"
proof -
  from assms(1) have b: "i < length ns" "j < length ns"
    by (auto simp: rectifyEdge_def Let_def split: if_splits)
  from assms(2) have "\<not> isNearHorizontal (normalizedAngle (ns ! i) (ns ! j))"
    by (rule isNearVertical_not_horizontal)
  with b assms show ?thesis
    by (cases "i = j") (auto simp: rectifyEdge_def Let_def)
qed

lemma nearVertical_steep:
  assumes "0 \<le> px n2 - px n1" "0 < py n2 - py n1" "10 * (px n2 - px n1) \<le> py n2 - py n1"
  shows "isNearVertical (normalizedAngle n1 n2)"
proof (cases "px n2 - px n1 = 0")
  case True
  with assms(2) have a: "atan2 (py n2 - py n1) (px n2 - px n1) = pi / 2"
    by (simp add: atan2_def)
  have "pi / 2 * (180 / pi) = 90" by simp
  then show ?thesis
    unfolding normalizedAngle_eq a Let_def isNearVertical_def snapTolerance_def by simp
next
  case False
  with assms(1) have dx: "0 < px n2 - px n1" by simp
  let ?q = "(py n2 - py n1) / (px n2 - px n1)"
  have q: "10 \<le> ?q" using assms(3) dx by (simp add: field_simps)
  have a: "atan2 (py n2 - py n1) (px n2 - px n1) = arctan ?q"
    using dx by (simp add: atan2_def)
  have "arctan (1 / 10) = pi / 2 - arctan 10"
    using arctan_inverse [of 10] by simp
  with arctan_tenth have "pi / 2 - pi / 18 \<le> arctan 10" by simp
  also have "\<dots> \<le> arctan ?q" using q by (simp only: arctan_le_iff)
  finally have l: "pi / 2 - pi / 18 \<le> arctan ?q" .
  have u: "arctan ?q < pi / 2" by (rule arctan_ubound)
  have "80 \<le> arctan ?q * (180 / pi)" using l by (simp add: field_simps)
  moreover have "arctan ?q * (180 / pi) < 90" using u by (simp add: field_simps)
  ultimately show ?thesis
    unfolding normalizedAngle_eq a Let_def isNearVertical_def snapTolerance_def by simp
qed

lemma rectifyEdge_result:
  assumes "rectifyEdge ns (a, b) = Some ns'"
  shows "a < length ns \<and> b < length ns \<and> length ns' = length ns \<and>
    (\<forall>k. ns' ! k =
      (if isNearHorizontal (normalizedAngle (ns ! a) (ns ! b)) \<and> (k = a \<or> k = b)
       then (ns ! k)\<lparr>py := (py (ns ! a) + py (ns ! b)) / 2\<rparr>
       else if \<not> isNearHorizontal (normalizedAngle (ns ! a) (ns ! b)) \<and>
               isNearVertical (normalizedAngle (ns ! a) (ns ! b)) \<and> (k = a \<or> k = b)
       then (ns ! k)\<lparr>px := (px (ns ! a) + px (ns ! b)) / 2\<rparr>
       else ns ! k))"
proof -
  from assms have b: "a < length ns" "b < length ns"
    by (auto simp: rectifyEdge_def Let_def split: if_splits)
  consider (h) "isNearHorizontal (normalizedAngle (ns ! a) (ns ! b))"
    | (v) "\<not> isNearHorizontal (normalizedAngle (ns ! a) (ns ! b))"
          "isNearVertical (normalizedAngle (ns ! a) (ns ! b))"
    | (n) "\<not> isNearHorizontal (normalizedAngle (ns ! a) (ns ! b))"
          "\<not> isNearVertical (normalizedAngle (ns ! a) (ns ! b))"
    by blast
  then show ?thesis
  proof cases
    case h
    with assms b have "ns' = (ns[a := (ns ! a)\<lparr>py := (py (ns ! a) + py (ns ! b)) / 2\<rparr>])
        [b := ((ns[a := (ns ! a)\<lparr>py := (py (ns ! a) + py (ns ! b)) / 2\<rparr>]) ! b)
               \<lparr>py := (py (ns ! a) + py (ns ! b)) / 2\<rparr>]"
      by (simp add: rectifyEdge_def Let_def)
    with b h show ?thesis by (simp add: nth_list_update)
  next
    case v
    with assms b have "ns' = (ns[a := (ns ! a)\<lparr>px := (px (ns ! a) + px (ns ! b)) / 2\<rparr>])
        [b := ((ns[a := (ns ! a)\<lparr>px := (px (ns ! a) + px (ns ! b)) / 2\<rparr>]) ! b)
               \<lparr>px := (px (ns ! a) + px (ns ! b)) / 2\<rparr>]"
      by (simp add: rectifyEdge_def Let_def)
    with b v show ?thesis by (simp add: nth_list_update)
  next
    case n
    with assms b have "ns' = ns" by (simp add: rectifyEdge_def Let_def)
    with b n show ?thesis by simp
  qed
qed

lemma rectifyEdge_keeps_py:
  assumes "rectifyEdge ns e = Some ns'"
    and "(fst e \<in> {i, j} \<or> snd e \<in> {i, j}) \<and>
       isNearHorizontal (normalizedAngle (ns ! fst e) (ns ! snd e))
         \<longrightarrow> py (ns ! fst e) = py (ns ! snd e)"
    and "k \<in> {i, j}"
  shows "py (ns' ! k) = py (ns ! k)"
proof -
  obtain a b where e: "e = (a, b)" by (cases e)
  let ?H = "isNearHorizontal (normalizedAngle (ns ! a) (ns ! b))"
  from rectifyEdge_result [OF assms(1) [unfolded e]]
  have r: "ns' ! k =
      (if ?H \<and> (k = a \<or> k = b)
       then (ns ! k)\<lparr>py := (py (ns ! a) + py (ns ! b)) / 2\<rparr>
       else if \<not> ?H \<and> isNearVertical (normalizedAngle (ns ! a) (ns ! b)) \<and> (k = a \<or> k = b)
       then (ns ! k)\<lparr>px := (px (ns ! a) + px (ns ! b)) / 2\<rparr>
       else ns ! k)"
    by blast
  show ?thesis
  proof (cases "?H \<and> (k = a \<or> k = b)")
    case True
    with assms(3) have "a \<in> {i, j} \<or> b \<in> {i, j}" by auto
    moreover from assms(2) have "(a \<in> {i, j} \<or> b \<in> {i, j}) \<and> ?H
        \<longrightarrow> py (ns ! a) = py (ns ! b)"
      by (simp only: e fst_conv snd_conv)
    ultimately have q: "py (ns ! a) = py (ns ! b)" using True by blast
    from True q have "py (ns ! k) = py (ns ! b)" by auto
    moreover from r True have "py (ns' ! k) = (py (ns ! a) + py (ns ! b)) / 2" by simp
    ultimately show ?thesis using q by simp
  next
    case False
    with r show ?thesis by (cases "k = a \<or> k = b") auto
  qed
qed

lemma rectifyEdge_keeps_px:
  assumes "rectifyEdge ns e = Some ns'"
    and "(fst e \<in> {i, j} \<or> snd e \<in> {i, j}) \<and>
       isNearVertical (normalizedAngle (ns ! fst e) (ns ! snd e))
         \<longrightarrow> px (ns ! fst e) = px (ns ! snd e)"
    and "k \<in> {i, j}"
  shows "px (ns' ! k) = px (ns ! k)"
proof -
  obtain a b where e: "e = (a, b)" by (cases e)
  let ?H = "isNearHorizontal (normalizedAngle (ns ! a) (ns ! b))"
  let ?V = "isNearVertical (normalizedAngle (ns ! a) (ns ! b))"
  from rectifyEdge_result [OF assms(1) [unfolded e]]
  have r: "ns' ! k =
      (if ?H \<and> (k = a \<or> k = b)
       then (ns ! k)\<lparr>py := (py (ns ! a) + py (ns ! b)) / 2\<rparr>
       else if \<not> ?H \<and> ?V \<and> (k = a \<or> k = b)
       then (ns ! k)\<lparr>px := (px (ns ! a) + px (ns ! b)) / 2\<rparr>
       else ns ! k)"
    by blast
  show ?thesis
  proof (cases "\<not> ?H \<and> ?V \<and> (k = a \<or> k = b)")
    case True
    with assms(3) have "a \<in> {i, j} \<or> b \<in> {i, j}" by auto
    moreover from assms(2) have "(a \<in> {i, j} \<or> b \<in> {i, j}) \<and> ?V
        \<longrightarrow> px (ns ! a) = px (ns ! b)"
      by (simp only: e fst_conv snd_conv)
    ultimately have q: "px (ns ! a) = px (ns ! b)" using True by blast
    from True q have "px (ns ! k) = px (ns ! b)" by auto
    moreover from r True have "px (ns' ! k) = (px (ns ! a) + px (ns ! b)) / 2" by simp
    ultimately show ?thesis using q by simp
  next
    case False
    with r show ?thesis by (cases "?H \<and> (k = a \<or> k = b)") auto
  qed
qed

lemma rectifyEdges_undisturbedY:
  "rectifyEdges ns es = Some ns' \<Longrightarrow> undisturbedY ns es i j \<Longrightarrow> k \<in> {i, j} \<Longrightarrow>
   py (ns' ! k) = py (ns ! k)"
proof (induction es arbitrary: ns)
  case Nil
  then show ?case by simp
next
  case (Cons e es)
  from Cons.prems(1) obtain ns1 where s: "rectifyEdge ns e = Some ns1" "rectifyEdges ns1 es = Some ns'"
    by (auto split: option.splits)
  from Cons.prems(2) s(1)
  have h: "(fst e \<in> {i, j} \<or> snd e \<in> {i, j}) \<and>
       isNearHorizontal (normalizedAngle (ns ! fst e) (ns ! snd e))
         \<longrightarrow> py (ns ! fst e) = py (ns ! snd e)"
    and u: "undisturbedY ns1 es i j"
    by simp_all
  from Cons.IH [OF s(2) u Cons.prems(3)] rectifyEdge_keeps_py [OF s(1) h Cons.prems(3)]
  show ?case by simp
qed

lemma rectifyEdges_undisturbedX:
  "rectifyEdges ns es = Some ns' \<Longrightarrow> undisturbedX ns es i j \<Longrightarrow> k \<in> {i, j} \<Longrightarrow>
   px (ns' ! k) = px (ns ! k)"
proof (induction es arbitrary: ns)
  case Nil
  then show ?case by simp
next
  case (Cons e es)
  from Cons.prems(1) obtain ns1 where s: "rectifyEdge ns e = Some ns1" "rectifyEdges ns1 es = Some ns'"
    by (auto split: option.splits)
  from Cons.prems(2) s(1)
  have h: "(fst e \<in> {i, j} \<or> snd e \<in> {i, j}) \<and>
       isNearVertical (normalizedAngle (ns ! fst e) (ns ! snd e))
         \<longrightarrow> px (ns ! fst e) = px (ns ! snd e)"
    and u: "undisturbedX ns1 es i j"
    by simp_all
  from Cons.IH [OF s(2) u Cons.prems(3)] rectifyEdge_keeps_px [OF s(1) h Cons.prems(3)]
  show ?case by simp
qed

text \<open>Later edges that share no node with the edge do not disturb it.\<close>

lemma apart_undisturbed:
  "\<forall>e\<in>set es. fst e \<notin> {i, j} \<and> snd e \<notin> {i, j} \<Longrightarrow>
   undisturbedY ns es i j \<and> undisturbedX ns es i j"
  by (induction es arbitrary: ns) (auto split: option.splits)

text \<open>Later edges of the other class, or of neither, do not disturb it either.\<close>

lemma other_class_undisturbed:
  "undisturbedY ns [] i j"
  "\<not> isNearHorizontal (normalizedAngle (ns ! fst e) (ns ! snd e)) \<Longrightarrow>
   rectifyEdge ns e = Some ns' \<Longrightarrow> undisturbedY ns' es i j \<Longrightarrow> undisturbedY ns (e # es) i j"
  "\<not> isNearVertical (normalizedAngle (ns ! fst e) (ns ! snd e)) \<Longrightarrow>
   rectifyEdge ns e = Some ns' \<Longrightarrow> undisturbedX ns' es i j \<Longrightarrow> undisturbedX ns (e # es) i j"
  by simp_all

text \<open>
  Claim C3, as stated: when the pass is over, every edge that was classified near-horizontal
  has the same \<open>y\<close> on both endpoint nodes.  Two strokes, \<open>(0,0)\<close> to \<open>(100,0)\<close> and
  \<open>(100,0)\<close> to \<open>(200,10)\<close>, give the nodes \<open>0\<close>, \<open>1\<close>, \<open>2\<close> and the edges \<open>(0,1)\<close>, \<open>(1,2)\<close>.
  Edge \<open>(0,1)\<close> is classified near-horizontal and averaged first; edge \<open>(1,2)\<close>, about 5.7
  degrees, is near-horizontal as well and moves the shared node \<open>1\<close> to \<open>y = 5\<close>.  In the
  returned graph edge \<open>(0,1)\<close> runs from \<open>(0,0)\<close> to \<open>(100,5)\<close>; it still counts as
  near-horizontal and its endpoints differ in \<open>y\<close>.
\<close>

theorem rectification_counterexample:
  "buildGraph [Some [pt 0 0, pt 100 0], Some [pt 100 0, pt 200 10]] =
     \<lparr>nodes = [pt 0 0, pt 100 0, pt 200 10], edges = [(0, 1), (1, 2)]\<rparr> \<and>
   isNearHorizontal (normalizedAngle (pt 0 0) (pt 100 0)) \<and>
   createWallGraph [Some [pt 0 0, pt 100 0], Some [pt 100 0, pt 200 10]] =
     Some \<lparr>nodes = [pt 0 0, pt 100 5, pt 200 5], edges = [(0, 1), (1, 2)]\<rparr> \<and>
   isNearHorizontal (normalizedAngle (pt 0 0) (pt 100 5)) \<and>
   py (pt 0 0) \<noteq> py (pt 100 5)"
proof -
  have "isNearHorizontal (normalizedAngle (pt 0 0) (pt 100 0))"
    by (rule nearHorizontal_shallow) simp_all
  moreover have "isNearHorizontal (normalizedAngle (pt 0 0) (pt 100 5))"
    by (rule nearHorizontal_shallow) simp_all
  ultimately show ?thesis using build_ex cwg_ex by simp
qed

text \<open>
  Claim C3, amended: an edge that is classified near-horizontal (near-vertical) when the pass
  reaches it has the same \<open>y\<close> (the same \<open>x\<close>) on both endpoint nodes in the returned graph,
  provided that every edge processed after it that shares a node with it and is classified
  near-horizontal (near-vertical) when the pass reaches it joins two nodes that have the
  same \<open>y\<close> (the same \<open>x\<close>) at that moment.  Later edges of the other class, diagonal edges
  and edges that share no node with it do not matter.  Here \<open>es1\<close> are the edges processed
  before the edge \<open>(i, j)\<close>, \<open>ns1\<close> are the nodes as the pass finds them when it reaches the
  edge, \<open>ns2\<close> are the nodes as it leaves them, and \<open>es2\<close> are the edges processed after it.
\<close>

theorem rectified_unless_disturbed_later:
  assumes "edges (buildGraph wallPaths) = es1 @ (i, j) # es2"
    and "rectifyEdges (nodes (buildGraph wallPaths)) es1 = Some ns1"
    and "rectifyEdge ns1 (i, j) = Some ns2"
  shows "\<exists>g. createWallGraph wallPaths = Some g \<and>
     (isNearHorizontal (normalizedAngle (ns1 ! i) (ns1 ! j)) \<and> undisturbedY ns2 es2 i j \<longrightarrow>
        py (nodes g ! i) = py (nodes g ! j)) \<and>
     (isNearVertical (normalizedAngle (ns1 ! i) (ns1 ! j)) \<and> undisturbedX ns2 es2 i j \<longrightarrow>
        px (nodes g ! i) = px (nodes g ! j))"
proof -
  obtain ns where ns: "rectifyEdges (nodes (buildGraph wallPaths)) (edges (buildGraph wallPaths)) = Some ns"
    and g: "createWallGraph wallPaths =
      Some \<lparr>nodes = ns, edges = map snd (uniqueEdges (edges (buildGraph wallPaths)))\<rparr>"
    using createWallGraph_total [of wallPaths] by blast
  from ns have r: "rectifyEdges ns2 es2 = Some ns"
    unfolding assms(1) rectifyEdges_append assms(2) using assms(3) by simp
  have "py (ns ! i) = py (ns ! j)"
    if "isNearHorizontal (normalizedAngle (ns1 ! i) (ns1 ! j))" "undisturbedY ns2 es2 i j"
  proof -
    have "py (ns ! i) = py (ns2 ! i)" "py (ns ! j) = py (ns2 ! j)"
      using rectifyEdges_undisturbedY [OF r that(2)] by simp_all
    with rectifyEdge_horizontal [OF assms(3) that(1)] show ?thesis by simp
  qed
  moreover have "px (ns ! i) = px (ns ! j)"
    if "isNearVertical (normalizedAngle (ns1 ! i) (ns1 ! j))" "undisturbedX ns2 es2 i j"
  proof -
    have "px (ns ! i) = px (ns2 ! i)" "px (ns ! j) = px (ns2 ! j)"
      using rectifyEdges_undisturbedX [OF r that(2)] by simp_all
    with rectifyEdge_vertical [OF assms(3) that(1)] show ?thesis by simp
  qed
  ultimately show ?thesis using g by simp
qed

text \<open>An L-shaped pair of walls: the second wall shares the corner node with the first and
  is near-vertical.\<close>

lemma build_corner:
  "buildGraph [Some [pt 0 0, pt 100 4], Some [pt 100 4, pt 104 100]] =
     \<lparr>nodes = [pt 0 0, pt 100 4, pt 104 100], edges = [(0, 1), (1, 2)]\<rparr>"
  by (simp add: buildGraph_def processPath_def removeColinearPoints_def Let_def
      findOrAddNode_def distance_less_iff)

lemma shallow_corner: "isNearHorizontal (normalizedAngle (pt 0 0) (pt 100 4))"
  by (rule nearHorizontal_shallow) simp_all

lemma steep_corner: "isNearVertical (normalizedAngle (pt 100 2) (pt 104 100))"
  by (rule nearVertical_steep) simp_all

lemma rectify_corner_first:
  "rectifyEdge [pt 0 0, pt 100 4, pt 104 100] (0, 1) = Some [pt 0 2, pt 100 2, pt 104 100]"
  using shallow_corner by (simp add: rectifyEdge_def Let_def)

lemma rectify_corner_second:
  "rectifyEdge [pt 0 2, pt 100 2, pt 104 100] (1, 2) = Some [pt 0 2, pt 102 2, pt 102 100]"
  using steep_corner isNearVertical_not_horizontal [OF steep_corner]
  by (simp add: rectifyEdge_def Let_def numeral_2_eq_2)

lemma createWallGraph_corner:
  "createWallGraph [Some [pt 0 0, pt 100 4], Some [pt 100 4, pt 104 100]] =
     Some \<lparr>nodes = [pt 0 2, pt 102 2, pt 102 100], edges = [(0, 1), (1, 2)]\<rparr>"
  by (simp add: createWallGraph_def build_corner rectify_corner_first [unfolded One_nat_def]
      rectify_corner_second [unfolded One_nat_def] dedup_ex [unfolded One_nat_def])

theorem rectified_unless_disturbed_later_witness:
  "edges (buildGraph [Some [pt 0 0, pt 100 4], Some [pt 100 4, pt 104 100]]) =
     [] @ (0, 1) # [(1, 2)] \<and>
   rectifyEdges (nodes (buildGraph [Some [pt 0 0, pt 100 4], Some [pt 100 4, pt 104 100]])) [] =
     Some [pt 0 0, pt 100 4, pt 104 100] \<and>
   rectifyEdge [pt 0 0, pt 100 4, pt 104 100] (0, 1) = Some [pt 0 2, pt 100 2, pt 104 100] \<and>
   isNearHorizontal (normalizedAngle ([pt 0 0, pt 100 4, pt 104 100] ! 0)
     ([pt 0 0, pt 100 4, pt 104 100] ! 1)) \<and>
   fst (1::nat, 2::nat) \<in> {0, 1} \<and>
   \<not> isNearHorizontal (normalizedAngle ([pt 0 2, pt 100 2, pt 104 100] ! 1)
     ([pt 0 2, pt 100 2, pt 104 100] ! 2)) \<and>
   createWallGraph [Some [pt 0 0, pt 100 4], Some [pt 100 4, pt 104 100]] =
     Some \<lparr>nodes = [pt 0 2, pt 102 2, pt 102 100], edges = [(0, 1), (1, 2)]\<rparr> \<and>
   py ([pt 0 2, pt 102 2, pt 102 100] ! 0) = py ([pt 0 2, pt 102 2, pt 102 100] ! 1)"
proof -
  have a: "edges (buildGraph [Some [pt 0 0, pt 100 4], Some [pt 100 4, pt 104 100]]) =
     [] @ (0, 1) # [(1, 2)]"
    by (simp add: build_corner)
  have b: "rectifyEdges (nodes (buildGraph [Some [pt 0 0, pt 100 4], Some [pt 100 4, pt 104 100]])) [] =
     Some [pt 0 0, pt 100 4, pt 104 100]"
    by (simp add: build_corner)
  have h: "isNearHorizontal (normalizedAngle ([pt 0 0, pt 100 4, pt 104 100] ! 0)
     ([pt 0 0, pt 100 4, pt 104 100] ! 1))"
    using shallow_corner by simp
  have n: "\<not> isNearHorizontal (normalizedAngle ([pt 0 2, pt 100 2, pt 104 100] ! 1)
     ([pt 0 2, pt 100 2, pt 104 100] ! 2))"
    using isNearVertical_not_horizontal [OF steep_corner] by simp
  have u: "undisturbedY [pt 0 2, pt 100 2, pt 104 100] [(1, 2)] 0 1"
    using n by (simp split: option.splits)
  from rectified_unless_disturbed_later [OF a b rectify_corner_first] h u
  have "py ([pt 0 2, pt 102 2, pt 102 100] ! 0) = py ([pt 0 2, pt 102 2, pt 102 100] ! 1)"
    unfolding createWallGraph_corner by simp
  with a b h n rectify_corner_first createWallGraph_corner show ?thesis by simp
qed

subsection \<open>The edges of the returned graph\<close>

text \<open>
  Claim C8.  For every list of wall strokes the graph builder returns a graph, and every edge
  of the returned graph connects two different node indices.
\<close>

theorem no_self_loops:
  "(\<exists>g. createWallGraph wallPaths = Some g) \<and>
   (\<forall>g i j. createWallGraph wallPaths = Some g \<longrightarrow> (i, j) \<in> set (edges g) \<longrightarrow> i \<noteq> j)"
proof -
  obtain ns where ns: "createWallGraph wallPaths =
      Some \<lparr>nodes = ns, edges = map snd (uniqueEdges (edges (buildGraph wallPaths)))\<rparr>"
    using createWallGraph_total [of wallPaths] by blast
  have "i \<noteq> j" if "(i, j) \<in> set (map snd (uniqueEdges (edges (buildGraph wallPaths))))" for i j
  proof -
    from that uniqueEdges_subset have "(i, j) \<in> set (edges (buildGraph wallPaths))" by blast
    with buildGraph_wellFormed [of wallPaths] show ?thesis by (auto simp: wellFormed_def)
  qed
  with ns show ?thesis by auto
qed

theorem no_self_loops_witness:
  "createWallGraph [Some [pt 0 0, pt 100 0], Some [pt 100 0, pt 200 10]] =
     Some \<lparr>nodes = [pt 0 0, pt 100 5, pt 200 5], edges = [(0, 1), (1, 2)]\<rparr> \<and>
   (1, 2) \<in> set (edges \<lparr>nodes = [pt 0 0, pt 100 5, pt 200 5], edges = [(0, 1), (1, 2)]\<rparr>) \<and>
   (1::nat) \<noteq> 2"
  using no_self_loops [of "[Some [pt 0 0, pt 100 0], Some [pt 100 0, pt 200 10]]"] cwg_ex
  by simp

section \<open>Node assignment\<close>

lemma firstClose_append: "firstClose ns i p \<Longrightarrow> firstClose (ns @ ys) i p"
  by (auto simp: firstClose_def nth_append)

lemma findOrAddNode_firstClose:
  assumes "findOrAddNode ns p = (i, ns')"
  shows "firstClose ns' i p" and "\<exists>ys. ns' = ns @ ys"
  using findOrAddNode_props [OF assms] by (auto simp: firstClose_def)

lemma pathAssignments_step:
  assumes "findOrAddNode ns p1 = (i1, ns1)" and "findOrAddNode ns1 p2 = (i2, ns2)"
  shows "pathAssignments ns (p1 # p2 # rest) =
    ((p1, i1) # (p2, i2) # fst (pathAssignments ns2 (p2 # rest)),
     snd (pathAssignments ns2 (p2 # rest)))"
  using assms by (simp add: Let_def)

lemma pathAssignments_Cons:
  "(\<exists>ys. snd (pathAssignments ns (p # ps)) = ns @ ys) \<and>
   (\<forall>a\<in>set (fst (pathAssignments ns (p # ps))).
      firstClose (snd (pathAssignments ns (p # ps))) (snd a) (fst a))"
proof (induction ps arbitrary: ns p)
  case Nil
  show ?case by simp
next
  case (Cons q ps)
  obtain i1 ns1 where r1: "findOrAddNode ns p = (i1, ns1)" by (cases "findOrAddNode ns p")
  obtain i2 ns2 where r2: "findOrAddNode ns1 q = (i2, ns2)" by (cases "findOrAddNode ns1 q")
  let ?r = "pathAssignments ns2 (q # ps)"
  from Cons.IH [of ns2 q] obtain zs where zs: "snd ?r = ns2 @ zs"
    and ih: "\<forall>a\<in>set (fst ?r). firstClose (snd ?r) (snd a) (fst a)" by blast
  from findOrAddNode_firstClose [OF r1] obtain ys1 where f1: "firstClose ns1 i1 p" "ns1 = ns @ ys1"
    by blast
  from findOrAddNode_firstClose [OF r2] obtain ys2 where f2: "firstClose ns2 i2 q" "ns2 = ns1 @ ys2"
    by blast
  have e: "snd ?r = ns @ (ys1 @ ys2 @ zs)" using zs f1(2) f2(2) by simp
  have c1: "firstClose (snd ?r) i1 p"
    using firstClose_append [OF f1(1), of "ys2 @ zs"] zs f2(2) by simp
  have c2: "firstClose (snd ?r) i2 q"
    using firstClose_append [OF f2(1), of zs] zs by simp
  show ?case
    unfolding pathAssignments_step [OF r1 r2] using e c1 c2 ih by auto
qed

lemma pathAssignments_props:
  "(\<exists>ys. snd (pathAssignments ns ps) = ns @ ys) \<and>
   (\<forall>a\<in>set (fst (pathAssignments ns ps)).
      firstClose (snd (pathAssignments ns ps)) (snd a) (fst a))"
proof (cases ps)
  case Nil
  show ?thesis unfolding Nil by simp
next
  case (Cons p ps')
  show ?thesis unfolding Cons by (rule pathAssignments_Cons)
qed

lemma pathAssignments_graph_Cons:
  "nodes (addPathEdges g (p # ps)) = snd (pathAssignments (nodes g) (p # ps)) \<and>
   edges (addPathEdges g (p # ps)) = edges g @ edgesOf (fst (pathAssignments (nodes g) (p # ps)))"
proof (induction ps arbitrary: g p)
  case Nil
  show ?case by simp
next
  case (Cons q ps)
  obtain i1 ns1 where r1: "findOrAddNode (nodes g) p = (i1, ns1)"
    by (cases "findOrAddNode (nodes g) p")
  obtain i2 ns2 where r2: "findOrAddNode ns1 q = (i2, ns2)"
    by (cases "findOrAddNode ns1 q")
  let ?g = "\<lparr>nodes = ns2, edges = (if i1 \<noteq> i2 then edges g @ [(i1, i2)] else edges g)\<rparr>"
  from Cons.IH [of ?g q] show ?case
    unfolding addPathEdges_step [OF r1 r2] pathAssignments_step [OF r1 r2] by simp
qed

lemma pathAssignments_graph:
  "nodes (addPathEdges g ps) = snd (pathAssignments (nodes g) ps) \<and>
   edges (addPathEdges g ps) = edges g @ edgesOf (fst (pathAssignments (nodes g) ps))"
proof (cases ps)
  case Nil
  show ?thesis unfolding Nil by simp
next
  case (Cons p ps')
  show ?thesis unfolding Cons by (rule pathAssignments_graph_Cons)
qed

lemma pathAssignments_even: "even (length (fst (pathAssignments ns ps)))"
proof (induction ns ps rule: pathAssignments.induct)
  case (1 ns p1 p2 rest)
  then show ?case by (simp add: Let_def)
qed simp_all

lemma edgesOf_append: "even (length xs) \<Longrightarrow> edgesOf (xs @ ys) = edgesOf xs @ edgesOf ys"
  by (induction xs rule: edgesOf.induct) simp_all

lemma assignments_graph:
  "edges (foldl processPath g paths) = edges g @ edgesOf (assignments (nodes g) paths) \<and>
   even (length (assignments (nodes g) paths))"
proof (induction paths arbitrary: g)
  case Nil
  show ?case by simp
next
  case (Cons path paths)
  show ?case
  proof (cases path)
    case None
    with Cons.IH [of g] show ?thesis by (simp add: processPath_def)
  next
    case (Some points)
    let ?c = "removeColinearPoints points 10"
    let ?g = "addPathEdges g ?c"
    have n: "nodes ?g = snd (pathAssignments (nodes g) ?c)"
      and e: "edges ?g = edges g @ edgesOf (fst (pathAssignments (nodes g) ?c))"
      using pathAssignments_graph [of g ?c] by simp_all
    from Cons.IH [of ?g] Some n e pathAssignments_even [of "nodes g" ?c]
    show ?thesis by (simp add: processPath_def Let_def edgesOf_append)
  qed
qed

text \<open>The recorded assignments are the ones behind the edges of the built graph.\<close>

lemma buildGraph_edges: "edges (buildGraph paths) = edgesOf (assignments [] paths)"
  using assignments_graph [of "\<lparr>nodes = [], edges = []\<rparr>" paths] by (simp add: buildGraph_def)

lemma assignments_firstClose:
  "(\<exists>ys. nodes (foldl processPath g paths) = nodes g @ ys) \<and>
   (\<forall>a\<in>set (assignments (nodes g) paths).
      firstClose (nodes (foldl processPath g paths)) (snd a) (fst a))"
proof (induction paths arbitrary: g)
  case Nil
  show ?case by simp
next
  case (Cons path paths)
  show ?case
  proof (cases path)
    case None
    with Cons.IH [of g] show ?thesis by (simp add: processPath_def)
  next
    case (Some points)
    let ?c = "removeColinearPoints points 10"
    let ?g = "addPathEdges g ?c"
    have n: "nodes ?g = snd (pathAssignments (nodes g) ?c)"
      using pathAssignments_graph [of g ?c] by simp
    from pathAssignments_props [of "nodes g" ?c] n obtain ys
      where ys: "nodes ?g = nodes g @ ys"
      and here: "\<forall>a\<in>set (fst (pathAssignments (nodes g) ?c)). firstClose (nodes ?g) (snd a) (fst a)"
      by auto
    from Cons.IH [of ?g] obtain zs
      where zs: "nodes (foldl processPath ?g paths) = nodes ?g @ zs"
      and later: "\<forall>a\<in>set (assignments (nodes ?g) paths).
        firstClose (nodes (foldl processPath ?g paths)) (snd a) (fst a)"
      by blast
    have f: "foldl processPath g (path # paths) = foldl processPath ?g paths"
      using Some by (simp add: processPath_def)
    have a: "assignments (nodes g) (path # paths) =
        fst (pathAssignments (nodes g) ?c) @ assignments (nodes ?g) paths"
      using Some n by (simp add: Let_def)
    have "\<forall>a\<in>set (fst (pathAssignments (nodes g) ?c)).
        firstClose (nodes (foldl processPath ?g paths)) (snd a) (fst a)"
      using here firstClose_append [of "nodes ?g" _ _ zs] zs by simp
    with later zs ys show ?thesis unfolding f a by auto
  qed
qed

lemma pathResolutions_step:
  assumes "findOrAddNode ns p1 = (i1, ns1)" and "findOrAddNode ns1 p2 = (i2, ns2)"
  shows "pathResolutions ns (p1 # p2 # rest) =
    ((ns, p1, i1) # (ns1, p2, i2) # fst (pathResolutions ns2 (p2 # rest)),
     snd (pathResolutions ns2 (p2 # rest)))"
  using assms by (simp add: Let_def)

text \<open>Without the node lists the record is the one of \<open>pathAssignments\<close>.\<close>

lemma pathResolutions_assignments_Cons:
  "map snd (fst (pathResolutions ns (p # ps))) = fst (pathAssignments ns (p # ps)) \<and>
   snd (pathResolutions ns (p # ps)) = snd (pathAssignments ns (p # ps))"
proof (induction ps arbitrary: ns p)
  case Nil
  show ?case by simp
next
  case (Cons q ps)
  obtain i1 ns1 where r1: "findOrAddNode ns p = (i1, ns1)" by (cases "findOrAddNode ns p")
  obtain i2 ns2 where r2: "findOrAddNode ns1 q = (i2, ns2)" by (cases "findOrAddNode ns1 q")
  from Cons.IH [of ns2 q] show ?case
    unfolding pathResolutions_step [OF r1 r2] pathAssignments_step [OF r1 r2] by simp
qed

lemma pathResolutions_assignments:
  "map snd (fst (pathResolutions ns ps)) = fst (pathAssignments ns ps) \<and>
   snd (pathResolutions ns ps) = snd (pathAssignments ns ps)"
proof (cases ps)
  case Nil
  show ?thesis unfolding Nil by simp
next
  case (Cons p ps')
  show ?thesis unfolding Cons by (rule pathResolutions_assignments_Cons)
qed

lemma resolutions_assignments: "map snd (resolutions ns paths) = assignments ns paths"
proof (induction ns paths rule: resolutions.induct)
  case (1 ns)
  show ?case by simp
next
  case (2 ns paths)
  then show ?case by simp
next
  case (3 ns points paths)
  from "3.IH" [OF refl] pathResolutions_assignments [of ns "removeColinearPoints points 10"]
  show ?case by (simp add: Let_def)
qed

text \<open>What one resolution does, in terms of the nodes it finds.\<close>

lemma findOrAddNode_new:
  assumes "\<forall>n\<in>set ns. \<not> distance n p < mergeDistance"
  shows "findOrAddNode ns p = (length ns, ns @ [p])"
proof -
  have "findIndex (\<lambda>n. distance n p < mergeDistance) ns = None"
  proof (cases "findIndex (\<lambda>n. distance n p < mergeDistance) ns")
    case None
    then show ?thesis .
  next
    case (Some k)
    from findIndex_Some [OF Some] assms show ?thesis by (auto dest: nth_mem)
  qed
  then show ?thesis by (simp add: findOrAddNode_def)
qed

lemma findOrAddNode_old:
  assumes "\<exists>n\<in>set ns. distance n p < mergeDistance"
  shows "fst (findOrAddNode ns p) < length ns \<and> snd (findOrAddNode ns p) = ns"
proof (cases "findIndex (\<lambda>n. distance n p < mergeDistance) ns")
  case None
  from findIndex_None [OF None] assms show ?thesis by blast
next
  case (Some k)
  from findIndex_Some [OF Some] Some show ?thesis by (simp add: findOrAddNode_def)
qed

text \<open>Every recorded resolution is a call of \<open>findOrAddNode\<close> on a prefix of the final node
  list, and the final node list extends the result of the call.\<close>

lemma pathResolutions_calls_Cons:
  "\<forall>r\<in>set (fst (pathResolutions ns (p # ps))).
     snd (snd r) = fst (findOrAddNode (fst r) (fst (snd r))) \<and>
     (\<exists>zs. snd (pathResolutions ns (p # ps)) = snd (findOrAddNode (fst r) (fst (snd r))) @ zs)"
proof (induction ps arbitrary: ns p)
  case Nil
  show ?case by simp
next
  case (Cons q ps)
  obtain i1 ns1 where r1: "findOrAddNode ns p = (i1, ns1)" by (cases "findOrAddNode ns p")
  obtain i2 ns2 where r2: "findOrAddNode ns1 q = (i2, ns2)" by (cases "findOrAddNode ns1 q")
  let ?r = "pathResolutions ns2 (q # ps)"
  from pathResolutions_assignments [of ns2 "q # ps"] pathAssignments_props [of ns2 "q # ps"]
  obtain zs where zs: "snd ?r = ns2 @ zs" by auto
  from findOrAddNode_props(2) [OF r2] obtain ys2 where ys2: "ns2 = ns1 @ ys2" by blast
  have first: "i1 = fst (findOrAddNode ns p) \<and>
      (\<exists>zs'. snd ?r = snd (findOrAddNode ns p) @ zs')"
    using r1 zs ys2 by simp
  have second: "i2 = fst (findOrAddNode ns1 q) \<and>
      (\<exists>zs'. snd ?r = snd (findOrAddNode ns1 q) @ zs')"
    using r2 zs by simp
  from Cons.IH [of ns2 q] first second show ?case
    unfolding pathResolutions_step [OF r1 r2] by simp
qed

lemma pathResolutions_calls:
  "\<forall>r\<in>set (fst (pathResolutions ns ps)).
     snd (snd r) = fst (findOrAddNode (fst r) (fst (snd r))) \<and>
     (\<exists>zs. snd (pathResolutions ns ps) = snd (findOrAddNode (fst r) (fst (snd r))) @ zs)"
proof (cases ps)
  case Nil
  show ?thesis unfolding Nil by simp
next
  case (Cons p ps')
  show ?thesis unfolding Cons by (rule pathResolutions_calls_Cons)
qed

lemma resolutions_calls:
  "\<forall>r\<in>set (resolutions (nodes g) paths).
     snd (snd r) = fst (findOrAddNode (fst r) (fst (snd r))) \<and>
     (\<exists>zs. nodes (foldl processPath g paths) = snd (findOrAddNode (fst r) (fst (snd r))) @ zs)"
proof (induction paths arbitrary: g)
  case Nil
  show ?case by simp
next
  case (Cons path paths)
  show ?case
  proof (cases path)
    case None
    with Cons.IH [of g] show ?thesis by (simp add: processPath_def)
  next
    case (Some points)
    let ?c = "removeColinearPoints points 10"
    let ?g = "addPathEdges g ?c"
    have n: "nodes ?g = snd (pathResolutions (nodes g) ?c)"
      using pathAssignments_graph [of g ?c] pathResolutions_assignments [of "nodes g" ?c] by simp
    from assignments_firstClose [of ?g paths] obtain zs
      where zs: "nodes (foldl processPath ?g paths) = nodes ?g @ zs" by blast
    have f: "foldl processPath g (path # paths) = foldl processPath ?g paths"
      using Some by (simp add: processPath_def)
    have a: "resolutions (nodes g) (path # paths) =
        fst (pathResolutions (nodes g) ?c) @ resolutions (nodes ?g) paths"
      using Some n by (simp add: Let_def)
    have here: "\<forall>r\<in>set (fst (pathResolutions (nodes g) ?c)).
       snd (snd r) = fst (findOrAddNode (fst r) (fst (snd r))) \<and>
       (\<exists>zs'. nodes (foldl processPath ?g paths) = snd (findOrAddNode (fst r) (fst (snd r))) @ zs')"
    proof
      fix r
      assume "r \<in> set (fst (pathResolutions (nodes g) ?c))"
      with pathResolutions_calls [of "nodes g" ?c] obtain zs'
        where "snd (snd r) = fst (findOrAddNode (fst r) (fst (snd r)))"
          and "snd (pathResolutions (nodes g) ?c) = snd (findOrAddNode (fst r) (fst (snd r))) @ zs'"
        by blast
      with n zs show "snd (snd r) = fst (findOrAddNode (fst r) (fst (snd r))) \<and>
       (\<exists>zs'. nodes (foldl processPath ?g paths) = snd (findOrAddNode (fst r) (fst (snd r))) @ zs')"
        by simp
    qed
    with Cons.IH [of ?g] show ?thesis unfolding f a by auto
  qed
qed

lemma assignment_is_resolution:
  "(p, i) \<in> set (assignments ns paths) \<Longrightarrow> \<exists>ns0. (ns0, p, i) \<in> set (resolutions ns paths)"
  unfolding resolutions_assignments [symmetric] by auto

lemma resolutions_ex:
  "resolutions [] [Some [pt 0 0, pt 50 0], Some [pt 25 0, pt 25 100]] =
     [([], pt 0 0, 0), ([pt 0 0], pt 50 0, 1),
      ([pt 0 0, pt 50 0], pt 25 0, 0), ([pt 0 0, pt 50 0], pt 25 100, 2)]"
  by (simp add: removeColinearPoints_def Let_def findOrAddNode_def distance_less_iff)

lemma assignments_ex:
  "assignments [] [Some [pt 0 0, pt 50 0], Some [pt 25 0, pt 25 100]] =
     [(pt 0 0, 0), (pt 50 0, 1), (pt 25 0, 0), (pt 25 100, 2)]"
  by (simp add: removeColinearPoints_def Let_def findOrAddNode_def distance_less_iff)

lemma build_merge_ex:
  "buildGraph [Some [pt 0 0, pt 50 0], Some [pt 25 0, pt 25 100]] =
     \<lparr>nodes = [pt 0 0, pt 50 0, pt 25 100], edges = [(0, 1), (0, 2)]\<rparr>"
  by (simp add: buildGraph_def processPath_def removeColinearPoints_def Let_def
      findOrAddNode_def distance_less_iff)

text \<open>
  Claim C2, as stated: any two raw endpoints that are closer than \<open>mergeDistance\<close> to each
  other get the same node index.  Two strokes, \<open>(0,0)\<close> to \<open>(50,0)\<close> and \<open>(25,0)\<close> to
  \<open>(25,100)\<close>: the endpoint \<open>(50,0)\<close> becomes node \<open>1\<close>, since node \<open>0\<close> at \<open>(0,0)\<close> is 50
  away; the endpoint \<open>(25,0)\<close> is 25 away from both nodes and takes the first, node \<open>0\<close>.
  The two endpoints are 25 apart and have different indices.
\<close>

theorem merge_distance_counterexample:
  "assignments [] [Some [pt 0 0, pt 50 0], Some [pt 25 0, pt 25 100]] =
     [(pt 0 0, 0), (pt 50 0, 1), (pt 25 0, 0), (pt 25 100, 2)] \<and>
   edges (buildGraph [Some [pt 0 0, pt 50 0], Some [pt 25 0, pt 25 100]]) = [(0, 1), (0, 2)] \<and>
   distance (pt 50 0) (pt 25 0) < mergeDistance \<and>
   (1::nat) \<noteq> 0"
proof -
  have "distance (pt 50 0) (pt 25 0) < mergeDistance"
    by (simp add: distance_less_iff)
  then show ?thesis unfolding assignments_ex build_merge_ex by simp
qed

text \<open>
  Claim C2, amended: every raw endpoint is assigned the index of the first node, in
  insertion order, whose position at build time is closer than \<open>mergeDistance\<close> to it.
  When none of the nodes that exist at that moment is that close, the endpoint is pushed as
  a new node and is assigned the index of that node; otherwise it is assigned the index of
  a node that exists already.  Here \<open>ns\<close> are the nodes that exist when the endpoint \<open>p\<close> is resolved to \<open>i\<close>.
\<close>

theorem merge_first_node:
  assumes "(ns, p, i) \<in> set (resolutions [] wallPaths)"
  shows "(p, i) \<in> set (assignments [] wallPaths) \<and>
     (\<exists>ys. nodes (buildGraph wallPaths) = ns @ ys) \<and>
     i < length (nodes (buildGraph wallPaths)) \<and>
     distance (nodes (buildGraph wallPaths) ! i) p < mergeDistance \<and>
     (\<forall>k<i. \<not> distance (nodes (buildGraph wallPaths) ! k) p < mergeDistance) \<and>
     ((\<forall>n\<in>set ns. \<not> distance n p < mergeDistance) \<longrightarrow>
        i = length ns \<and> nodes (buildGraph wallPaths) ! i = p) \<and>
     ((\<exists>n\<in>set ns. distance n p < mergeDistance) \<longrightarrow> i < length ns)"
proof -
  let ?N = "nodes (buildGraph wallPaths)"
  obtain i' ns1 where call: "findOrAddNode ns p = (i', ns1)" by (cases "findOrAddNode ns p")
  from resolutions_calls [of "\<lparr>nodes = [], edges = []\<rparr>" wallPaths] assms call
  obtain zs where i: "i = i'" and N: "?N = ns1 @ zs"
    by (fastforce simp: buildGraph_def)
  from findOrAddNode_props [OF call] obtain ys
    where b: "i' < length ns1" and ys: "ns1 = ns @ ys"
      and c: "distance (ns1 ! i') p < mergeDistance"
      and f: "\<forall>k<i'. \<not> distance (ns1 ! k) p < mergeDistance"
    by blast
  have m: "(p, i) \<in> set (assignments [] wallPaths)"
    using assms unfolding resolutions_assignments [symmetric] by force
  have pre: "\<exists>ys. ?N = ns @ ys" using N ys by simp
  have fc: "i < length ?N \<and> distance (?N ! i) p < mergeDistance \<and>
      (\<forall>k<i. \<not> distance (?N ! k) p < mergeDistance)"
    using b c f unfolding i N by (auto simp: nth_append)
  have new: "i = length ns \<and> ?N ! i = p" if "\<forall>n\<in>set ns. \<not> distance n p < mergeDistance"
  proof -
    from findOrAddNode_new [OF that] call have "i' = length ns" "ns1 = ns @ [p]" by simp_all
    then show ?thesis unfolding i N by (simp add: nth_append)
  qed
  have old: "i < length ns" if "\<exists>n\<in>set ns. distance n p < mergeDistance"
    using findOrAddNode_old [OF that] call i by simp
  from m pre fc new old show ?thesis by blast
qed

theorem merge_first_node_witness:
  "([pt 0 0], pt 50 0, 1) \<in> set (resolutions [] [Some [pt 0 0, pt 50 0], Some [pt 25 0, pt 25 100]]) \<and>
   \<not> distance (pt 0 0) (pt 50 0) < mergeDistance \<and>
   (pt 50 0, 1) \<in> set (assignments [] [Some [pt 0 0, pt 50 0], Some [pt 25 0, pt 25 100]]) \<and>
   nodes (buildGraph [Some [pt 0 0, pt 50 0], Some [pt 25 0, pt 25 100]]) =
     [pt 0 0] @ [pt 50 0, pt 25 100] \<and>
   1 = length [pt 0 0] \<and>
   nodes (buildGraph [Some [pt 0 0, pt 50 0], Some [pt 25 0, pt 25 100]]) ! 1 = pt 50 0 \<and>
   distance (nodes (buildGraph [Some [pt 0 0, pt 50 0], Some [pt 25 0, pt 25 100]]) ! 1) (pt 50 0)
     < mergeDistance \<and>
   \<not> distance (nodes (buildGraph [Some [pt 0 0, pt 50 0], Some [pt 25 0, pt 25 100]]) ! 0) (pt 50 0)
     < mergeDistance \<and>
   ([pt 0 0, pt 50 0], pt 25 0, 0) \<in>
     set (resolutions [] [Some [pt 0 0, pt 50 0], Some [pt 25 0, pt 25 100]]) \<and>
   distance (pt 0 0) (pt 25 0) < mergeDistance \<and>
   0 < length [pt 0 0, pt 50 0]"
proof -
  have a: "([pt 0 0], pt 50 0, 1) \<in>
      set (resolutions [] [Some [pt 0 0, pt 50 0], Some [pt 25 0, pt 25 100]])"
    unfolding resolutions_ex by simp
  have b: "([pt 0 0, pt 50 0], pt 25 0, 0) \<in>
      set (resolutions [] [Some [pt 0 0, pt 50 0], Some [pt 25 0, pt 25 100]])"
    unfolding resolutions_ex by simp
  have n: "\<not> distance (pt 0 0) (pt 50 0) < mergeDistance"
    by (simp add: distance_less_iff)
  have c: "distance (pt 0 0) (pt 25 0) < mergeDistance"
    by (simp add: distance_less_iff)
  from merge_first_node [OF a] merge_first_node [OF b] a b n c show ?thesis
    unfolding build_merge_ex by simp
qed

section \<open>Doors\<close>


lemma snapStep_degenerate:
  "i < length ns \<Longrightarrow> j < length ns \<Longrightarrow> ns ! i = ns ! j \<Longrightarrow> snapStep ns p st (i, j) = Some st"
  by (simp add: snapStep_def distanceToSegment_def Let_def)

text \<open>An edge of length zero can come out of the graph builder: the nodes \<open>(0,0)\<close> and
  \<open>(40,0)\<close> are not merged, and the steep wall from \<open>(0,0)\<close> to \<open>(80,1000)\<close> moves the
  first of them onto the second.\<close>

lemma build_collapse:
  "buildGraph [Some [pt 0 0, pt 40 0], Some [pt 0 0, pt 80 1000]] =
     \<lparr>nodes = [pt 0 0, pt 40 0, pt 80 1000], edges = [(0, 1), (0, 2)]\<rparr>"
  by (simp add: buildGraph_def processPath_def removeColinearPoints_def Let_def
      findOrAddNode_def distance_less_iff)

lemma createWallGraph_collapse:
  "createWallGraph [Some [pt 0 0, pt 40 0], Some [pt 0 0, pt 80 1000]] =
     Some \<lparr>nodes = [pt 40 0, pt 40 0, pt 40 1000], edges = [(0, 1), (0, 2)]\<rparr>"
proof -
  have h: "isNearHorizontal (normalizedAngle (pt 0 0) (pt 40 0))"
    by (rule nearHorizontal_shallow) simp_all
  have v: "isNearVertical (normalizedAngle (pt 0 0) (pt 80 1000))"
    by (rule nearVertical_steep) simp_all
  have "rectifyEdges [pt 0 0, pt 40 0, pt 80 1000] [(0, Suc 0), (0, 2)] =
      Some [pt 40 0, pt 40 0, pt 40 1000]"
    using h v isNearVertical_not_horizontal [OF v]
    by (simp add: rectifyEdge_def Let_def numeral_2_eq_2)
  moreover have "map snd (uniqueEdges [(0, Suc 0), (0, 2)]) = [(0, Suc 0), (0, 2)]"
    by (simp add: uniqueEdges_def edgeKey_def showNat_digit)
  ultimately show ?thesis
    unfolding createWallGraph_def build_collapse by simp
qed


lemma snapToNearestEdge_no_edges: "edges graph = [] \<Longrightarrow> snapToNearestEdge graph p = Some p"
  by (simp add: snapToNearestEdge_def)

lemma doorStrokes_simps:
  "doorStrokes [] = []"
  "doorStrokes (None # paths) = doorStrokes paths"
  "doorStrokes (Some segments # paths) =
     (if length segments < 2 then doorStrokes paths else segments # doorStrokes paths)"
  by (auto simp: doorStrokes_def)

lemma findDoors_loop_no_edges:
  "edges graph = [] \<Longrightarrow>
   findDoors_loop graph paths acc =
     Some (acc @ map (\<lambda>segments.
       \<lparr>door_start = hd segments, door_end = last segments,
        door_original = \<lparr>orig_start = hd segments, orig_end = last segments\<rparr>\<rparr>)
       (doorStrokes paths))"
  by (induction graph paths acc rule: findDoors_loop.induct)
    (simp_all add: doorStrokes_simps snapToNearestEdge_no_edges Let_def)

lemma findDoors_loop_original:
  "findDoors_loop graph paths acc = Some ds \<Longrightarrow>
   map door_original ds =
     map door_original acc @
     map (\<lambda>segments. \<lparr>orig_start = hd segments, orig_end = last segments\<rparr>) (doorStrokes paths)"
proof (induction graph paths acc rule: findDoors_loop.induct)
  case (1 graph doors)
  then show ?case by (simp add: doorStrokes_simps)
next
  case (2 graph paths doors)
  then show ?case by (simp add: doorStrokes_simps)
next
  case (3 graph segments paths doors)
  show ?case
  proof (cases "length segments < 2")
    case True
    with 3 show ?thesis by (simp add: doorStrokes_simps)
  next
    case False
    with "3.prems" obtain s e where s: "snapToNearestEdge graph (hd segments) = Some s"
      and e: "snapToNearestEdge graph (last segments) = Some e"
      and r: "findDoors_loop graph paths
        (doors @ [\<lparr>door_start = s, door_end = e,
           door_original = \<lparr>orig_start = hd segments, orig_end = last segments\<rparr>\<rparr>]) = Some ds"
      by (auto simp: Let_def split: option.splits)
    from "3.IH"(2) [OF False refl refl s e r] False show ?thesis
      by (simp add: doorStrokes_simps)
  qed
qed

lemma scaleToRealWorld_original:
  "map sdoor_original (scaled_doors (scaleToRealWorld graph ds dimensionValue boundingBoxLength)) =
     map door_original ds"
  by (simp add: scaleToRealWorld_def Let_def o_def)

text \<open>
  Claim C10.  Against a wall graph without edges, every door stroke with at least two points
  yields a door whose snapped start and end are its first and last raw point.  For every
  graph on which the projection returns, the \<open>original\<close> field of each door holds the first
  and the last raw point of its stroke, and scaling leaves that field as it is.
\<close>

theorem doors_keep_original:
  "(edges graph = [] \<longrightarrow>
      findDoors doorPaths graph =
        Some (map (\<lambda>segments.
          \<lparr>door_start = hd segments, door_end = last segments,
           door_original = \<lparr>orig_start = hd segments, orig_end = last segments\<rparr>\<rparr>)
          (doorStrokes doorPaths))) \<and>
   (findDoors doorPaths graph = Some ds \<longrightarrow>
      map door_original ds =
        map (\<lambda>segments. \<lparr>orig_start = hd segments, orig_end = last segments\<rparr>)
          (doorStrokes doorPaths) \<and>
      map sdoor_original
        (scaled_doors (scaleToRealWorld graph ds dimensionValue boundingBoxLength)) =
        map door_original ds)"
  using findDoors_loop_no_edges [of graph doorPaths "[]"]
    findDoors_loop_original [of graph doorPaths "[]" ds]
    scaleToRealWorld_original [of graph ds dimensionValue boundingBoxLength]
  by (simp add: findDoors_def)

lemma findDoors_ex:
  "findDoors [Some [pt 2 3, pt 3 9, pt 4 5]] \<lparr>nodes = [pt 0 0, pt 10 0], edges = [(0, 1)]\<rparr> =
     Some [\<lparr>door_start = pt 2 0, door_end = pt 4 0,
            door_original = \<lparr>orig_start = pt 2 3, orig_end = pt 4 5\<rparr>\<rparr>]"
  by (simp add: findDoors_def snapToNearestEdge_def snapStep_def distanceToSegment_def Let_def)

theorem doors_keep_original_witness:
  "edges \<lparr>nodes = [], edges = []\<rparr> = [] \<and>
   findDoors [Some [pt 1 2, pt 3 4, pt 5 6], Some [pt 9 9], None] \<lparr>nodes = [], edges = []\<rparr> =
     Some [\<lparr>door_start = pt 1 2, door_end = pt 5 6,
            door_original = \<lparr>orig_start = pt 1 2, orig_end = pt 5 6\<rparr>\<rparr>] \<and>
   findDoors [Some [pt 2 3, pt 3 9, pt 4 5]] \<lparr>nodes = [pt 0 0, pt 10 0], edges = [(0, 1)]\<rparr> =
     Some [\<lparr>door_start = pt 2 0, door_end = pt 4 0,
            door_original = \<lparr>orig_start = pt 2 3, orig_end = pt 4 5\<rparr>\<rparr>] \<and>
   map door_original
     [\<lparr>door_start = pt 2 0, door_end = pt 4 0,
       door_original = \<lparr>orig_start = pt 2 3, orig_end = pt 4 5\<rparr>\<rparr>] =
     [\<lparr>orig_start = pt 2 3, orig_end = pt 4 5\<rparr>] \<and>
   map sdoor_original
     (scaled_doors (scaleToRealWorld \<lparr>nodes = [pt 0 0, pt 10 0], edges = [(0, 1)]\<rparr>
        [\<lparr>door_start = pt 2 0, door_end = pt 4 0,
          door_original = \<lparr>orig_start = pt 2 3, orig_end = pt 4 5\<rparr>\<rparr>] 24 (Fin 240))) =
     [\<lparr>orig_start = pt 2 3, orig_end = pt 4 5\<rparr>]"
  using doors_keep_original [of "\<lparr>nodes = [], edges = []\<rparr>"
      "[Some [pt 1 2, pt 3 4, pt 5 6], Some [pt 9 9], None]" "[]" 24 "Fin 240"]
    doors_keep_original [of "\<lparr>nodes = [pt 0 0, pt 10 0], edges = [(0, 1)]\<rparr>"
      "[Some [pt 2 3, pt 3 9, pt 4 5]]"
      "[\<lparr>door_start = pt 2 0, door_end = pt 4 0,
         door_original = \<lparr>orig_start = pt 2 3, orig_end = pt 4 5\<rparr>\<rparr>]" 24 "Fin 240"]
    findDoors_ex
  by (simp add: doorStrokes_simps)

section \<open>Scaling\<close>

lemma scaleFactor_eq:
  "scaleFactor (scaleToRealWorld wallGraph ds dimensionValue boundingBoxLength) =
     jsdiv (Fin 12) boundingBoxLength"
  by (simp add: scaleToRealWorld_def Let_def)

text \<open>
  Claim C1.  The claim is that the scale factor is \<open>dimensionValue / referenceLengthPixels\<close>,
  so that the value 24 on a reference length of 240 pixels gives the factor 0.1 and takes the
  node \<open>(50,50)\<close> to \<open>(5,5)\<close>.  The code divides the constant 12 by the reference length
  and does not use the dimension value: the factor is 0.05 and the node goes to
  \<open>(2.5,2.5)\<close>.
\<close>

theorem scale_factor_is_12_over_length:
  "scaleToRealWorld \<lparr>nodes = [pt 50 50], edges = []\<rparr> [] 24 (Fin 240) =
     \<lparr>scaled_wallGraph = \<lparr>snodes = [\<lparr>jx = Fin (5 / 2), jy = Fin (5 / 2)\<rparr>], sedges = []\<rparr>,
      scaled_doors = [], scaleFactor = Fin (1 / 20)\<rparr>"
  by (simp add: scaleToRealWorld_def Let_def)

section \<open>Submission\<close>

lemma findBoundingBox_point:
  "findBoundingBox [Some [pt 10 10]] =
     \<lparr>minX = Fin 10, minY = Fin 10, maxX = Fin 10, maxY = Fin 10,
      width = Fin 0, height = Fin 0, centerX = Some (Fin 10), centerY = Some (Fin 10)\<rparr>"
  by (simp add: findBoundingBox_def extendBoxPath_def extendBox_def)

lemma build_wall: 
  "buildGraph [Some [pt 50 50, pt 150 50]] = \<lparr>nodes = [pt 50 50, pt 150 50], edges = [(0, 1)]\<rparr>"
  by (simp add: buildGraph_def processPath_def removeColinearPoints_def Let_def
      findOrAddNode_def distance_less_iff)

lemma createWallGraph_wall:
  "createWallGraph [Some [pt 50 50, pt 150 50]] =
     Some \<lparr>nodes = [pt 50 50, pt 150 50], edges = [(0, 1)]\<rparr>"
proof -
  have "isNearHorizontal (normalizedAngle (pt 50 50) (pt 150 50))"
    by (rule nearHorizontal_shallow) simp_all
  then have "rectifyEdge [pt 50 50, pt 150 50] (0, Suc 0) = Some [pt 50 50, pt 150 50]"
    by (simp add: rectifyEdge_def Let_def)
  then show ?thesis
    unfolding createWallGraph_def build_wall by (simp add: uniqueEdges_def)
qed

lemma showNat_0: "showNat 0 = ''0''"
  by code_simp

text \<open>Without dimension strokes nothing is recognized and the coordinates stay in pixels,
  whatever the recognizer would answer.\<close>

lemma send_without_dimension_strokes:
  "send wallPaths doorPaths [] recognize =
     (case createWallGraph wallPaths of
        None \<Rightarrow> None
      | Some wallGraph \<Rightarrow>
          (case findDoors doorPaths wallGraph of
             None \<Rightarrow> None
           | Some doorsData \<Rightarrow>
               (case wallsFrom (map unscaledPoint (nodes wallGraph)) 0 (edges wallGraph) of
                  None \<Rightarrow> None
                | Some ws \<Rightarrow> Some \<lparr>walls = ws, doors = map unscaledDoor doorsData\<rparr>)))"
  by (simp add: send_def extractDimensionNumber_def Let_def split: option.splits)

text \<open>
  Claim C4.  The claim is that a reference length of zero makes the engine skip the scaling
  and return pixel coordinates.  The scaling is entered whenever a dimension value is
  recognized; the reference length is not looked at.  A dimension stroke of a single point
  has a bounding box of width and height zero; with the recognized value 24 the factor is
  the quotient of 12 by zero, \<open>Infinity\<close>, and the wall from \<open>(50,50)\<close> to \<open>(150,50)\<close> is
  posted with infinite coordinates.
\<close>

theorem zero_reference_length_is_not_skipped:
  "width (findBoundingBox [Some [pt 10 10]]) = Fin 0 \<and>
   height (findBoundingBox [Some [pt 10 10]]) = Fin 0 \<and>
   scaleFactor (scaleToRealWorld \<lparr>nodes = [pt 50 50, pt 150 50], edges = [(0, 1)]\<rparr> [] 24 (Fin 0)) =
     PosInf \<and>
   send [Some [pt 50 50, pt 150 50]] [] [Some [pt 10 10]]
     (\<lambda>pathsData. Some \<lparr>dimension_text = ''24'', dimension_value = Some 24\<rparr>) =
     Some \<lparr>walls = [\<lparr>wall_id = ''wall_0'',
                      start_point = \<lparr>jx = PosInf, jy = PosInf\<rparr>,
                      end_point = \<lparr>jx = PosInf, jy = PosInf\<rparr>\<rparr>],
           doors = []\<rparr>"
  by (simp add: send_def findBoundingBox_point extractDimensionNumber_def createWallGraph_wall
      findDoors_def scaleToRealWorld_def Let_def showNat_0)

end
